theory Spec2Isabelle
  imports Complex_Main "HOL-Library.Multiset"
begin

section \<open>Python runtime errors and sequence primitives\<close>

text \<open>
  The exceptions the modelled code can raise.  \<open>RuntimeError\<close> is what torch raises on a
  shape mismatch or an invalid transform size, \<open>IndexError\<close> on an out-of-range index,
  \<open>KeyError\<close> on a missing dictionary key, \<open>ZeroDivisionError\<close> on \<open>int / 0\<close>,
  \<open>ValueError\<close> on \<open>int(nan)\<close> and \<open>OverflowError\<close> on \<open>int(-inf)\<close>.
\<close>

datatype error =
  RuntimeError | IndexError | KeyError | ZeroDivisionError | ValueError | OverflowError

text \<open>Python's normalisation of a slice bound against a sequence of length \<open>n\<close>.\<close>

definition slice_bound :: "int \<Rightarrow> nat \<Rightarrow> nat" where
  "slice_bound i n = (if i < 0 then nat (max 0 (i + int n)) else min (nat i) n)"

text \<open>\<open>xs[a:b]\<close>, \<open>xs[:b]\<close> and \<open>xs[a:]\<close> with integer bounds of either sign.\<close>

definition py_slice :: "'a list \<Rightarrow> int \<Rightarrow> int \<Rightarrow> 'a list" where
  "py_slice xs a b =
     (let lo = slice_bound a (length xs); hi = slice_bound b (length xs)
      in take (hi - lo) (drop lo xs))"

definition py_upto :: "'a list \<Rightarrow> int \<Rightarrow> 'a list" where
  "py_upto xs b = take (slice_bound b (length xs)) xs"

definition py_from :: "'a list \<Rightarrow> int \<Rightarrow> 'a list" where
  "py_from xs a = drop (slice_bound a (length xs)) xs"

section \<open>The paired dataset (\<open>utils/dataset.py\<close>)\<close>

type_synonym sid = int
type_synonym path = string
type_synonym groups = "(sid \<times> path list) list"
type_synonym pair = "sid \<times> path \<times> path"

text \<open>
  The data reader is an external collaborator: the model takes from it the list of paths
  (\<open>self.dataset\<close>) and the transcript dictionary (\<open>self.reader.transcript\<close>).
\<close>

record DataReader =
  dataset :: "path list"
  transcript :: "string \<rightharpoonup> (sid \<times> string)"

text \<open>
  \<open>self.groups\<close> is a Python dict, which keeps insertion order; it is an association list
  here because \<open>random_pairing\<close> and \<open>split\<close> depend on that order.
\<close>

record PairedDataset =
  reader :: DataReader
  groups :: groups
  pairs :: "pair list"

text \<open>\<open>os.path.basename\<close>: what follows the last slash.\<close>

definition basename :: "string \<Rightarrow> string" where
  "basename p = rev (takeWhile (\<lambda>c. c \<noteq> CHR ''/'') (rev p))"

text \<open>\<open>s.replace('.wav', '')\<close>: every occurrence removed, scanning from the left.\<close>

fun remove_wav :: "string \<Rightarrow> string" where
  "remove_wav [] = []"
| "remove_wav (c # cs) =
     (if take 4 (c # cs) = ''.wav'' then remove_wav (drop 3 cs) else c # remove_wav cs)"

text \<open>
  The body of the grouping loop's two statements
  \<open>if sid not in self.groups: self.groups[sid] = []\<close> and \<open>self.groups[sid].append(path)\<close>.
\<close>

fun group_add :: "sid \<Rightarrow> path \<Rightarrow> groups \<Rightarrow> groups" where
  "group_add s p [] = [(s, [p])]"
| "group_add s p ((k, ps) # g) =
     (if k = s then (k, ps @ [p]) # g else (k, ps) # group_add s p g)"

text \<open>The loop \<open>for path in iters\<close>; a key missing from the transcript raises.\<close>

fun group_paths :: "(string \<rightharpoonup> (sid \<times> string)) \<Rightarrow> path list \<Rightarrow> groups \<Rightarrow> error + groups" where
  "group_paths tr [] g = Inr g"
| "group_paths tr (p # ps) g =
     (case tr (remove_wav (basename p)) of
        None \<Rightarrow> Inl KeyError
      | Some (s, _) \<Rightarrow> group_paths tr ps (group_add s p g))"

text \<open>
  numpy's generator is outside the repository.  It is a pair of parameters: \<open>seeded s\<close> is
  what \<open>default_rng(s)\<close> does with an integer seed (a generator state, or the exception
  numpy raises for a seed it rejects), and \<open>perm g n\<close> is \<open>rng.permutation(n)\<close> in state
  \<open>g\<close> with the state after the draw.  With \<open>seed = None\<close> numpy seeds from the operating
  system; that state is the input \<open>fresh\<close>.
\<close>

definition default_rng :: "(int \<Rightarrow> error + 'g) \<Rightarrow> int option \<Rightarrow> 'g \<Rightarrow> error + 'g" where
  "default_rng seeded seed fresh = (case seed of None \<Rightarrow> Inr fresh | Some s \<Rightarrow> seeded s)"

text \<open>What numpy guarantees of \<open>permutation(n)\<close>: a rearrangement of \<open>0, ..., n - 1\<close>.\<close>

definition perm_ok :: "('g \<Rightarrow> nat \<Rightarrow> nat list \<times> 'g) \<Rightarrow> bool" where
  "perm_ok perm \<longleftrightarrow> (\<forall>g n. mset (fst (perm g n)) = mset [0..<n])"

text \<open>\<open>indices.reshape(-1, 2)\<close> on an index vector of even length.\<close>

fun reshape2 :: "'a list \<Rightarrow> ('a \<times> 'a) list" where
  "reshape2 (i # j # r) = (i, j) # reshape2 r"
| "reshape2 _ = []"

text \<open>
  The body of the loop over \<open>self.groups.items()\<close>, for the drawn \<open>indices\<close>.  A permutation of
  \<open>0, ..., n - 1\<close> has \<open>n\<close> entries below \<open>n\<close>, so with numpy's generator neither
  \<open>indices[0]\<close>, nor the reshape, nor \<open>paths[i]\<close> can raise; the properties below that depend on
  it assume \<open>perm_ok\<close>.
\<close>

definition pair_group :: "sid \<Rightarrow> path list \<Rightarrow> nat list \<Rightarrow> pair list" where
  "pair_group s paths indices =
     (let indices' = (if length paths mod 2 = 1 then indices @ [indices ! 0] else indices)
      in map (\<lambda>(i, j). (s, paths ! i, paths ! j)) (reshape2 indices'))"

fun pairing_loop :: "('g \<Rightarrow> nat \<Rightarrow> nat list \<times> 'g) \<Rightarrow> 'g \<Rightarrow> groups \<Rightarrow> pair list" where
  "pairing_loop perm g [] = []"
| "pairing_loop perm g ((s, paths) # rest) =
     (case perm g (length paths) of
        (indices, g') \<Rightarrow> pair_group s paths indices @ pairing_loop perm g' rest)"

definition random_pairing ::
  "(int \<Rightarrow> error + 'g) \<Rightarrow> ('g \<Rightarrow> nat \<Rightarrow> nat list \<times> 'g) \<Rightarrow> PairedDataset \<Rightarrow> int option \<Rightarrow> 'g
     \<Rightarrow> error + PairedDataset" where
  "random_pairing seeded perm ds seed fresh =
     (case default_rng seeded seed fresh of
        Inl e \<Rightarrow> Inl e
      | Inr rng \<Rightarrow> Inr (ds\<lparr>pairs := pairing_loop perm rng (groups ds)\<rparr>))"

definition PairedDataset_init ::
  "(int \<Rightarrow> error + 'g) \<Rightarrow> ('g \<Rightarrow> nat \<Rightarrow> nat list \<times> 'g) \<Rightarrow> DataReader \<Rightarrow> 'g
     \<Rightarrow> error + PairedDataset" where
  "PairedDataset_init seeded perm rd fresh =
     (case group_paths (transcript rd) (dataset rd) [] of
        Inl e \<Rightarrow> Inl e
      | Inr g \<Rightarrow> random_pairing seeded perm \<lparr>reader = rd, groups = g, pairs = []\<rparr> None fresh)"

text \<open>
  \<open>split\<close> returns the residual dataset and mutates \<open>self\<close>; the model returns both, the
  updated \<open>self\<close> first.  \<open>deepcopy(self)\<close> is the record itself, values being immutable
  here.  Each of the two re-pairings seeds from the operating system, the residual's first.
\<close>

definition split ::
  "(int \<Rightarrow> error + 'g) \<Rightarrow> ('g \<Rightarrow> nat \<Rightarrow> nat list \<times> 'g) \<Rightarrow> PairedDataset \<Rightarrow> int \<Rightarrow> 'g \<Rightarrow> 'g
     \<Rightarrow> error + PairedDataset \<times> PairedDataset" where
  "split seeded perm ds sz fresh1 fresh2 =
     (let residual = ds;
          gs = groups ds;
          residual = residual\<lparr>groups := py_from gs sz\<rparr>;
          self = ds\<lparr>groups := py_upto gs sz\<rparr>
      in case random_pairing seeded perm residual None fresh1 of
           Inl e \<Rightarrow> Inl e
         | Inr residual' \<Rightarrow>
             (case random_pairing seeded perm self None fresh2 of
                Inl e \<Rightarrow> Inl e
              | Inr self' \<Rightarrow> Inr (self', residual')))"

text \<open>The invariant of a dataset: every pair joins two records of one speaker's group.\<close>

definition pairs_within_groups :: "PairedDataset \<Rightarrow> bool" where
  "pairs_within_groups ds \<longleftrightarrow>
     distinct (map fst (groups ds)) \<and>
     (\<forall>(s, p1, p2) \<in> set (pairs ds).
        \<exists>ps. map_of (groups ds) s = Some ps \<and> p1 \<in> set ps \<and> p2 \<in> set ps)"

text \<open>
  A small deterministic generator, used to run the model on concrete inputs; like numpy's
  it rejects a negative seed.
\<close>

definition rot_seeded :: "int \<Rightarrow> error + nat" where
  "rot_seeded s = (if s < 0 then Inl ValueError else Inr (nat s))"

text \<open>The records a list of pairs uses, with multiplicity.\<close>

definition pair_records :: "pair list \<Rightarrow> path list" where
  "pair_records ps = concat (map (\<lambda>(s, p1, p2). [p1, p2]) ps)"

definition rot_perm :: "nat \<Rightarrow> nat \<Rightarrow> nat list \<times> nat" where
  "rot_perm g n = (rotate g [0..<n], Suc g)"

text \<open>A reader, a grouping and a dataset to run the model on.\<close>

definition demo_reader :: DataReader where
  "demo_reader = \<lparr>dataset = [''a/1.wav'', ''a/2.wav'', ''b/3.wav'', ''a/4.wav'', ''c/5.wav''],
     transcript = [''1'' \<mapsto> (7, ''x''), ''2'' \<mapsto> (7, ''y''), ''3'' \<mapsto> (8, ''z''), ''4'' \<mapsto> (7, ''w''), ''5'' \<mapsto> (9, ''v'')]\<rparr>"

definition demo_groups :: groups where
  "demo_groups = [(7, [''a/1.wav'', ''a/2.wav'', ''a/4.wav'']), (8, [''b/3.wav'', ''b/6.wav'']), (9, [''c/5.wav''])]"

definition demo_dataset :: PairedDataset where
  "demo_dataset = \<lparr>reader = demo_reader, groups = demo_groups, pairs = []\<rparr>"

section \<open>The Yingram extractor (\<open>nansy/yingram.py\<close>)\<close>

text \<open>
  Tensor entries are real numbers: the model is the exact-arithmetic reading of the
  floating-point code.  A quotient is a \<open>real option\<close>, \<open>None\<close> standing for the non-finite
  result (NaN or an infinity) of a division by zero; every later operation on a
  non-finite operand stays non-finite, since the code only ever divides by finite numbers.
\<close>

record Yingram =
  strides :: int
  windows :: int
  lmin :: int
  lmax :: int
  sr :: int


text \<open>Running a fallible step over a list, stopping at the first exception.\<close>

fun map_err :: "('a \<Rightarrow> error + 'b) \<Rightarrow> 'a list \<Rightarrow> error + 'b list" where
  "map_err f [] = Inr []"
| "map_err f (x # xs) =
     (case f x of
        Inl e \<Rightarrow> Inl e
      | Inr y \<Rightarrow> (case map_err f xs of Inl e \<Rightarrow> Inl e | Inr ys \<Rightarrow> Inr (y # ys)))"

text \<open>\<open>F.pad(x, [0, w])\<close> on the last axis; a negative amount crops.\<close>

definition pad_zeros :: "real list \<Rightarrow> int \<Rightarrow> error + real list" where
  "pad_zeros x w =
     (if 0 \<le> w then Inr (x @ replicate (nat w) 0)
      else if int (length x) + w < 0 then Inl RuntimeError
      else Inr (take (nat (int (length x) + w)) x))"

text \<open>\<open>x.unfold(-1, size, step)\<close>: the windows of length \<open>size\<close> that start every \<open>step\<close>.\<close>

definition unfold :: "'a list \<Rightarrow> int \<Rightarrow> int \<Rightarrow> error + 'a list list" where
  "unfold x sz step =
     (if step \<le> 0 \<or> sz < 0 \<or> int (length x) < sz then Inl RuntimeError
      else Inr (map (\<lambda>i. take (nat sz) (drop (i * nat step) x))
                  [0..<(length x - nat sz) div nat step + 1]))"

text \<open>\<open>torch.fft.rfft\<close>: the first \<open>n div 2 + 1\<close> bins of the discrete Fourier transform.\<close>

definition rfft :: "real list \<Rightarrow> error + complex list" where
  "rfft x =
     (let n = length x
      in if n = 0 then Inl RuntimeError
         else Inr (map (\<lambda>k. \<Sum>j<n. complex_of_real (x ! j) * cis (- (2 * pi * real k * real j / real n)))
                     [0..<n div 2 + 1]))"

text \<open>
  \<open>torch.fft.irfft\<close> with the default output length \<open>2 * (m - 1)\<close> for \<open>m\<close> input bins:
  the inverse transform of the Hermitian extension, of which the imaginary parts of the
  first and the last bin play no role.
\<close>

definition irfft :: "complex list \<Rightarrow> error + real list" where
  "irfft X =
     (let m = length X; n = 2 * (m - 1)
      in if n = 0 then Inl RuntimeError
         else Inr (map (\<lambda>t. (Re (X ! 0)
                              + (\<Sum>k = 1..<m - 1. 2 * Re (X ! k * cis (2 * pi * real k * real t / real n)))
                              + Re (X ! (m - 1)) * cos (pi * real t)) / real n)
                     [0..<n]))"

text \<open>\<open>cumsum(dim=-1)\<close>.\<close>

fun cumsum_from :: "real \<Rightarrow> real list \<Rightarrow> real list" where
  "cumsum_from acc [] = []"
| "cumsum_from acc (x # xs) = (acc + x) # cumsum_from (acc + x) xs"

definition cumsum :: "real list \<Rightarrow> real list" where
  "cumsum xs = cumsum_from 0 xs"

text \<open>
  An elementwise operation on the last axis with torch's broadcasting: the two lengths
  must agree unless one of them is 1.
\<close>

definition bop :: "('a \<Rightarrow> 'b \<Rightarrow> 'c) \<Rightarrow> 'a list \<Rightarrow> 'b list \<Rightarrow> error + 'c list" where
  "bop f xs ys =
     (if length xs = length ys then Inr (map2 f xs ys)
      else if length xs = 1 then Inr (map (f (xs ! 0)) ys)
      else if length ys = 1 then Inr (map (\<lambda>x. f x (ys ! 0)) xs)
      else Inl RuntimeError)"

text \<open>Indexing one entry of the last axis: a negative index counts from the end.\<close>

definition gather :: "'a list \<Rightarrow> int \<Rightarrow> error + 'a" where
  "gather xs i =
     (if 0 \<le> i \<and> i < int (length xs) then Inr (xs ! nat i)
      else if i < 0 \<and> - int (length xs) \<le> i then Inr (xs ! nat (i + int (length xs)))
      else Inl IndexError)"

text \<open>Lines 52 to 54: the autocorrelation of a frame through the power spectrum.\<close>

definition autocorr :: "real list \<Rightarrow> error + real list" where
  "autocorr frame =
     (case rfft frame of
        Inl e \<Rightarrow> Inl e
      | Inr fft \<Rightarrow> irfft (map (\<lambda>z. complex_of_real ((cmod z)\<^sup>2)) fft))"

text \<open>Lines 56 to 64: the difference function of one frame.\<close>

definition difference :: "int \<Rightarrow> int \<Rightarrow> real list \<Rightarrow> error + real list" where
  "difference w tau_max frame =
     (case autocorr frame of
        Inl e \<Rightarrow> Inl e
      | Inr corr \<Rightarrow>
          let cs = 0 # cumsum (map (\<lambda>v. v\<^sup>2) frame)
          in case bop (-) (rev (py_slice cs (w - tau_max) w)) (map ((*) 2) (py_upto corr tau_max)) of
               Inl e \<Rightarrow> Inl e
             | Inr t1 \<Rightarrow>
                 (case gather cs w of
                    Inl e \<Rightarrow> Inl e
                  | Inr cw \<Rightarrow>
                      (case bop (+) t1 [cw] of
                         Inl e \<Rightarrow> Inl e
                       | Inr t2 \<Rightarrow> bop (-) t2 (py_upto cs tau_max))))"

definition fdiv :: "real \<Rightarrow> real \<Rightarrow> real option" where
  "fdiv a b = (if b = 0 then None else Some (a / b))"

text \<open>Lines 66 to 71: the cumulative mean normalized difference of one frame.\<close>

definition cumdiff :: "int \<Rightarrow> real list \<Rightarrow> error + real option list" where
  "cumdiff tau_max diff =
     (let d1 = py_from diff 1;
          q = map2 fdiv d1 (map (\<lambda>c. c + 1 / 10 ^ 7) (cumsum d1))
      in case bop (\<lambda>v k. map_option (\<lambda>r. r * k) v) q (map real_of_int [1..tau_max - 1]) of
           Inl e \<Rightarrow> Inl e
         | Inr c \<Rightarrow> Inr (Some 1 # c))"

text \<open>
  numpy's \<open>log2\<close> of a Python float: \<open>-inf\<close> at zero and \<open>nan\<close> below, neither an exception.
  \<open>int\<close> raises on both.
\<close>

datatype np_float = Fin real | NegInf | NaN

definition np_log2 :: "real \<Rightarrow> np_float" where
  "np_log2 x = (if 0 < x then Fin (log 2 x) else if x = 0 then NegInf else NaN)"

definition np_ceil :: "np_float \<Rightarrow> np_float" where
  "np_ceil v = (case v of Fin r \<Rightarrow> Fin (real_of_int \<lceil>r\<rceil>) | NegInf \<Rightarrow> NegInf | NaN \<Rightarrow> NaN)"

definition py_int :: "np_float \<Rightarrow> error + int" where
  "py_int v =
     (case v of
        Fin r \<Rightarrow> Inr (if 0 \<le> r then \<lfloor>r\<rfloor> else \<lceil>r\<rceil>)
      | NegInf \<Rightarrow> Inl OverflowError
      | NaN \<Rightarrow> Inl ValueError)"

definition m2l :: "int \<Rightarrow> int \<Rightarrow> real" where
  "m2l sr' m = real_of_int sr' / (440 * 2 powr (real_of_int (m - 69) / 12))"

definition l2m :: "int \<Rightarrow> int \<Rightarrow> error + np_float" where
  "l2m sr' l =
     (if 440 * l = 0 then Inl ZeroDivisionError
      else Inr (case np_log2 (real_of_int sr' / real_of_int (440 * l)) of
                  Fin v \<Rightarrow> Fin (12 * v + 69)
                | NegInf \<Rightarrow> NegInf
                | NaN \<Rightarrow> NaN))"

text \<open>Line 76: the bounds \<open>mmin\<close>, \<open>mmax\<close> of the MIDI grid.\<close>

definition midi_range :: "Yingram \<Rightarrow> error + int \<times> int" where
  "midi_range cfg =
     (case l2m (sr cfg) (lmax cfg) of
        Inl e \<Rightarrow> Inl e
      | Inr a \<Rightarrow>
          (case py_int (np_ceil a) of
             Inl e \<Rightarrow> Inl e
           | Inr mmin \<Rightarrow>
               (case l2m (sr cfg) (lmin cfg) of
                  Inl e \<Rightarrow> Inl e
                | Inr b \<Rightarrow>
                    (case py_int b of
                       Inl e \<Rightarrow> Inl e
                     | Inr mmax \<Rightarrow> Inr (mmin, mmax)))))"

text \<open>Lines 79 to 83 at one grid lag \<open>L\<close>, for the normalized difference \<open>c\<close> of a frame.\<close>

definition interpolate :: "real option list \<Rightarrow> real \<Rightarrow> error + real option" where
  "interpolate c L =
     (let lceil = \<lceil>L\<rceil>; lfloor = \<lfloor>L\<rfloor>
      in case gather c lceil of
           Inl e \<Rightarrow> Inl e
         | Inr hi \<Rightarrow>
             (case gather c lfloor of
                Inl e \<Rightarrow> Inl e
              | Inr lo \<Rightarrow>
                  Inr (case (hi, lo) of
                         (Some h, Some l) \<Rightarrow>
                           (case fdiv ((h - l) * (L - real_of_int lfloor)) (real_of_int (lceil - lfloor)) of
                              Some v \<Rightarrow> Some (v + l)
                            | None \<Rightarrow> None)
                       | _ \<Rightarrow> None)))"

text \<open>
  \<open>forward\<close> on a batch, a list of waveforms of one length: framing, then the normalized
  difference of every frame, then the grid, then the interpolation.  The exceptions of the
  tensor operations depend on the shapes alone; here they are met at the first waveform and
  its first frame, so the model is that of a batch with at least one waveform.
\<close>

definition forward :: "Yingram \<Rightarrow> real list list \<Rightarrow> error + real option list list list" where
  "forward cfg audio =
     (let w = windows cfg; tau_max = lmax cfg
      in case map_err (\<lambda>x. case pad_zeros x w of
                              Inl e \<Rightarrow> Inl e
                            | Inr p \<Rightarrow> unfold p w (strides cfg)) audio of
           Inl e \<Rightarrow> Inl e
         | Inr frames \<Rightarrow>
             (case map_err (map_err (\<lambda>fr. case difference w tau_max fr of
                                             Inl e \<Rightarrow> Inl e
                                           | Inr d \<Rightarrow> cumdiff tau_max d)) frames of
                Inl e \<Rightarrow> Inl e
              | Inr cds \<Rightarrow>
                  (case midi_range cfg of
                     Inl e \<Rightarrow> Inl e
                   | Inr (mmin, mmax) \<Rightarrow>
                       let lags = map (m2l (sr cfg)) [mmin..mmax]
                       in map_err (map_err (\<lambda>c. map_err (interpolate c) lags)) cds)))"

text \<open>
  The difference function as the specification words it: the sum of squared differences
  between the frame and its copy shifted by \<open>tau\<close>.
\<close>

definition squared_difference :: "real list \<Rightarrow> nat \<Rightarrow> real" where
  "squared_difference x tau = (\<Sum>j<length x - tau. (x ! j - x ! (j + tau))\<^sup>2)"

text \<open>The circular autocorrelation of a frame: the lagged copy wraps around the window.\<close>

definition circular_autocorr :: "real list \<Rightarrow> nat \<Rightarrow> real" where
  "circular_autocorr x t = (\<Sum>j<length x. x ! j * x ! ((j + t) mod length x))"

text \<open>The energy of the first \<open>k\<close> samples of a frame, \<open>c[k]\<close> in the comments of the code.\<close>

definition energy :: "real list \<Rightarrow> nat \<Rightarrow> real" where
  "energy x k = (\<Sum>j<k. (x ! j)\<^sup>2)"

text \<open>The length of the last axis of the output: the number of points of the MIDI grid.\<close>

definition grid_size :: "Yingram \<Rightarrow> nat" where
  "grid_size cfg = (case midi_range cfg of Inl e \<Rightarrow> 0 | Inr (mmin, mmax) \<Rightarrow> nat (mmax - mmin + 1))"

section \<open>Properties of the paired dataset\<close>

lemma length_reshape2: "even (length xs) \<Longrightarrow> length (reshape2 xs) = length xs div 2"
  by (induction xs rule: reshape2.induct) auto

lemma mset_reshape2:
  "even (length xs) \<Longrightarrow> mset (concat (map (\<lambda>(i, j). [f i, f j]) (reshape2 xs))) = mset (map f xs)"
  by (induction xs rule: reshape2.induct) auto

lemma pair_records_map:
  "pair_records (map (\<lambda>(i, j). (s, f i, f j)) zs) = concat (map (\<lambda>(i, j). [f i, f j]) zs)"
  by (induction zs) (auto simp: pair_records_def)

lemma mset_map_nth_perm:
  assumes "mset idx = mset [0..<length xs]"
  shows "mset (map ((!) xs) idx) = mset xs"
proof -
  have "mset (map ((!) xs) idx) = image_mset ((!) xs) (mset idx)" by simp
  also have "\<dots> = image_mset ((!) xs) (mset [0..<length xs])" using assms by simp
  also have "\<dots> = mset (map ((!) xs) [0..<length xs])" by simp
  also have "\<dots> = mset xs" by (simp add: map_nth)
  finally show ?thesis .
qed

lemma pair_group_even:
  assumes "mset idx = mset [0..<length paths]" "even (length paths)"
  shows "length (pair_group s paths idx) = length paths div 2"
    and "mset (pair_records (pair_group s paths idx)) = mset paths"
proof -
  have len: "length idx = length paths"
    using assms(1) by (metis length_upt mset_eq_length minus_nat.diff_0)
  have m: "length paths mod 2 \<noteq> 1" using assms(2) by presburger
  show "length (pair_group s paths idx) = length paths div 2"
    using m len assms(2) by (simp add: pair_group_def length_reshape2)
  show "mset (pair_records (pair_group s paths idx)) = mset paths"
    using m len assms(2) mset_map_nth_perm[OF assms(1)]
    by (simp add: pair_group_def pair_records_map mset_reshape2)
qed

lemma pair_group_odd:
  assumes "mset idx = mset [0..<length paths]" "odd (length paths)"
  shows "length (pair_group s paths idx) = (length paths + 1) div 2"
    and "mset (pair_records (pair_group s paths idx)) = mset paths + {# paths ! (idx ! 0) #}"
proof -
  have len: "length idx = length paths"
    using assms(1) by (metis length_upt mset_eq_length minus_nat.diff_0)
  have m: "length paths mod 2 = 1" using assms(2) by presburger
  have ev: "even (length (idx @ [idx ! 0]))" using len assms(2) by simp
  show "length (pair_group s paths idx) = (length paths + 1) div 2"
    using m len ev by (simp add: pair_group_def length_reshape2)
  show "mset (pair_records (pair_group s paths idx)) = mset paths + {# paths ! (idx ! 0) #}"
    using m len mset_map_nth_perm[OF assms(1)] mset_reshape2[OF ev, of "(!) paths"]
    by (simp add: pair_group_def pair_records_map)
qed

lemma pair_group_sid: "(s', p1, p2) \<in> set (pair_group s paths idx) \<Longrightarrow> s' = s"
  by (auto simp: pair_group_def Let_def)

lemma pair_group_covers:
  assumes "mset idx = mset [0..<length paths]" "p \<in> set paths"
  shows "\<exists>(s', p1, p2) \<in> set (pair_group s paths idx). s' = s \<and> (p = p1 \<or> p = p2)"
proof -
  have "p \<in># mset (pair_records (pair_group s paths idx))"
    using pair_group_even(2)[OF assms(1)] pair_group_odd(2)[OF assms(1)] assms(2)
    by (cases "even (length paths)") auto
  then have "p \<in> set (pair_records (pair_group s paths idx))" by simp
  then obtain t where t: "t \<in> set (pair_group s paths idx)" "p \<in> set (case t of (s, p1, p2) \<Rightarrow> [p1, p2])"
    by (auto simp: pair_records_def)
  obtain s' p1 p2 where [simp]: "t = (s', p1, p2)" by (cases t)
  from t pair_group_sid[of s' p1 p2 s paths idx] show ?thesis by auto
qed

lemma pairing_loop_covers:
  assumes "perm_ok perm" "(s, paths) \<in> set g" "p \<in> set paths"
  shows "\<exists>(s', p1, p2) \<in> set (pairing_loop perm st g). s' = s \<and> (p = p1 \<or> p = p2)"
  using assms(2)
proof (induction g arbitrary: st)
  case Nil
  then show ?case by simp
next
  case (Cons a g)
  obtain k ps where a: "a = (k, ps)" by (cases a)
  obtain idx st' where pr: "perm st (length ps) = (idx, st')" by (cases "perm st (length ps)")
  have idx: "mset idx = mset [0..<length ps]"
    using assms(1) pr unfolding perm_ok_def by (metis fst_conv)
  show ?case
  proof (cases "(s, paths) = a")
    case True
    then have "k = s" "ps = paths" using a by auto
    with pair_group_covers[OF idx, of p s] assms(3) show ?thesis
      using a pr by auto
  next
    case False
    with Cons have "\<exists>(s', p1, p2) \<in> set (pairing_loop perm st' g). s' = s \<and> (p = p1 \<or> p = p2)"
      by auto
    then show ?thesis using a pr by auto
  qed
qed

lemma reshape2_set: "(i, j) \<in> set (reshape2 xs) \<Longrightarrow> i \<in> set xs \<and> j \<in> set xs"
  by (induction xs rule: reshape2.induct) auto

lemma pair_group_within:
  assumes "mset idx = mset [0..<length paths]" "(s', p1, p2) \<in> set (pair_group s paths idx)"
  shows "s' = s \<and> p1 \<in> set paths \<and> p2 \<in> set paths"
proof -
  have st: "set idx = {0..<length paths}"
    using assms(1) by (metis mset_eq_setD set_upt)
  have len: "length idx = length paths"
    using assms(1) by (metis length_upt mset_eq_length minus_nat.diff_0)
  define idx' where "idx' = (if length paths mod 2 = 1 then idx @ [idx ! 0] else idx)"
  have sub: "set idx' \<subseteq> {0..<length paths}"
  proof (cases "length paths mod 2 = 1")
    case True
    then have "idx \<noteq> []" using len by auto
    then have "idx ! 0 \<in> set idx" by (simp add: nth_mem)
    with st True show ?thesis by (auto simp: idx'_def)
  next
    case False
    with st show ?thesis by (simp add: idx'_def)
  qed
  from assms(2) obtain i j where ij: "(i, j) \<in> set (reshape2 idx')" "s' = s" "p1 = paths ! i" "p2 = paths ! j"
    by (auto simp: pair_group_def idx'_def Let_def)
  from reshape2_set[OF ij(1)] sub have "i < length paths" "j < length paths" by auto
  with ij show ?thesis by simp
qed

lemma pairing_loop_within:
  assumes "perm_ok perm" "(s, p1, p2) \<in> set (pairing_loop perm st g)"
  shows "\<exists>ps. (s, ps) \<in> set g \<and> p1 \<in> set ps \<and> p2 \<in> set ps"
  using assms(2)
proof (induction g arbitrary: st)
  case Nil
  then show ?case by simp
next
  case (Cons a g)
  obtain k ps where a: "a = (k, ps)" by (cases a)
  obtain idx st' where pr: "perm st (length ps) = (idx, st')" by (cases "perm st (length ps)")
  have idx: "mset idx = mset [0..<length ps]"
    using assms(1) pr unfolding perm_ok_def by (metis fst_conv)
  from Cons.prems a pr consider "(s, p1, p2) \<in> set (pair_group k ps idx)"
    | "(s, p1, p2) \<in> set (pairing_loop perm st' g)" by auto
  then show ?case
  proof cases
    case 1
    from pair_group_within[OF idx 1] a show ?thesis by auto
  next
    case 2
    from Cons.IH[OF 2] show ?thesis by auto
  qed
qed

lemma group_add_keys: "set (map fst (group_add s p g)) = insert s (set (map fst g))"
  by (induction s p g rule: group_add.induct) auto

lemma group_add_distinct: "distinct (map fst g) \<Longrightarrow> distinct (map fst (group_add s p g))"
proof (induction g)
  case Nil
  then show ?case by simp
next
  case (Cons a g)
  obtain k ps where a: "a = (k, ps)" by (cases a)
  show ?case
  proof (cases "k = s")
    case True
    with Cons.prems a show ?thesis by simp
  next
    case False
    have "k \<notin> set (map fst (group_add s p g))"
      using Cons.prems a False by (simp add: group_add_keys del: set_map)
    with Cons a False show ?thesis by simp
  qed
qed

lemma group_paths_distinct:
  "group_paths tr ps g = Inr g' \<Longrightarrow> distinct (map fst g) \<Longrightarrow> distinct (map fst g')"
  by (induction ps arbitrary: g) (auto split: option.splits simp: group_add_distinct)

lemma random_pairing_inv:
  assumes "perm_ok perm" "distinct (map fst (groups ds))"
    "random_pairing seeded perm ds seed fresh = Inr ds'"
  shows "pairs_within_groups ds'"
proof -
  from assms(3) obtain rng where ds': "ds' = ds\<lparr>pairs := pairing_loop perm rng (groups ds)\<rparr>"
    by (auto simp: random_pairing_def split: sum.splits)
  have "\<exists>ps. map_of (groups ds) s = Some ps \<and> p1 \<in> set ps \<and> p2 \<in> set ps"
    if "(s, p1, p2) \<in> set (pairing_loop perm rng (groups ds))" for s p1 p2
  proof -
    from pairing_loop_within[OF assms(1) that] obtain ps
      where "(s, ps) \<in> set (groups ds)" "p1 \<in> set ps" "p2 \<in> set ps" by blast
    with assms(2) show ?thesis by (auto simp: map_of_eq_Some_iff)
  qed
  then show ?thesis using assms(2) by (auto simp: pairs_within_groups_def ds')
qed

lemma distinct_py_upto: "distinct (map fst g) \<Longrightarrow> distinct (map fst (py_upto g k))"
  by (simp add: py_upto_def take_map[symmetric] distinct_take)

lemma distinct_py_from: "distinct (map fst g) \<Longrightarrow> distinct (map fst (py_from g k))"
  by (simp add: py_from_def drop_map[symmetric] distinct_drop)

text \<open>
  Claim C10.  Every pair of a dataset built by \<open>__init__\<close>, re-paired by \<open>random_pairing\<close>
  or produced by \<open>split\<close> (the retained part and the residual part alike) carries a
  speaker that is a key of the dataset's groups and two records of that speaker's group.
\<close>

theorem dataset_invariant:
  assumes "perm_ok perm"
  shows "(PairedDataset_init seeded perm rd fresh = Inr ds0 \<longrightarrow> pairs_within_groups ds0)
    \<and> (distinct (map fst (groups ds)) \<longrightarrow>
          random_pairing seeded perm ds seed fresh = Inr ds1 \<longrightarrow> pairs_within_groups ds1)
    \<and> (distinct (map fst (groups ds)) \<longrightarrow>
          split seeded perm ds sz fresh1 fresh2 = Inr (self', residual) \<longrightarrow>
            pairs_within_groups self' \<and> pairs_within_groups residual
            \<and> groups self' = py_upto (groups ds) sz \<and> groups residual = py_from (groups ds) sz)"
proof (intro conjI impI)
  assume i: "PairedDataset_init seeded perm rd fresh = Inr ds0"
  then obtain g where g: "group_paths (transcript rd) (dataset rd) [] = Inr g"
    and r: "random_pairing seeded perm \<lparr>reader = rd, groups = g, pairs = []\<rparr> None fresh = Inr ds0"
    by (auto simp: PairedDataset_init_def split: sum.splits)
  from group_paths_distinct[OF g] have "distinct (map fst g)" by simp
  with random_pairing_inv[OF assms _ r] show "pairs_within_groups ds0" by simp
next
  assume "distinct (map fst (groups ds))" "random_pairing seeded perm ds seed fresh = Inr ds1"
  with random_pairing_inv[OF assms] show "pairs_within_groups ds1" by blast
next
  assume d: "distinct (map fst (groups ds))"
    and s: "split seeded perm ds sz fresh1 fresh2 = Inr (self', residual)"
  from s have r1: "random_pairing seeded perm (ds\<lparr>groups := py_from (groups ds) sz\<rparr>) None fresh1 = Inr residual"
    and r2: "random_pairing seeded perm (ds\<lparr>groups := py_upto (groups ds) sz\<rparr>) None fresh2 = Inr self'"
    by (auto simp: split_def Let_def split: sum.splits)
  show "pairs_within_groups self'"
    using random_pairing_inv[OF assms _ r2] distinct_py_upto[OF d] by simp
  show "pairs_within_groups residual"
    using random_pairing_inv[OF assms _ r1] distinct_py_from[OF d] by simp
  show "groups self' = py_upto (groups ds) sz"
    using r2 by (auto simp: random_pairing_def split: sum.splits)
  show "groups residual = py_from (groups ds) sz"
    using r1 by (auto simp: random_pairing_def split: sum.splits)
qed

lemma mset_rotate1: "mset (rotate1 xs) = mset xs"
  by (cases xs) simp_all

lemma mset_rotate: "mset (rotate n xs) = mset xs"
  by (induction n) (simp_all add: mset_rotate1)

lemma rot_perm_ok: "perm_ok rot_perm"
  by (simp add: perm_ok_def rot_perm_def mset_rotate del: mset_upt)


lemma pairing_loop_sids: "t \<in> set (pairing_loop perm st g) \<Longrightarrow> fst t \<in> fst ` set g"
proof (induction g arbitrary: st)
  case Nil
  then show ?case by simp
next
  case (Cons a g)
  obtain k ps where a: "a = (k, ps)" by (cases a)
  obtain idx st' where pr: "perm st (length ps) = (idx, st')" by (cases "perm st (length ps)")
  obtain s' p1 p2 where t: "t = (s', p1, p2)" by (cases t)
  from Cons.prems a pr consider "t \<in> set (pair_group k ps idx)"
    | "t \<in> set (pairing_loop perm st' g)" by auto
  then show ?case
  proof cases
    case 1
    with pair_group_sid[of s' p1 p2 k ps idx] t a show ?thesis by simp
  next
    case 2
    from Cons.IH[OF 2] show ?thesis by simp
  qed
qed

lemma filter_pair_group_same: "filter (\<lambda>t. fst t = s) (pair_group s ps idx) = pair_group s ps idx"
  by (rule filter_True) (auto simp: pair_group_def Let_def)

lemma filter_pair_group_other: "k \<noteq> s \<Longrightarrow> filter (\<lambda>t. fst t = s) (pair_group k ps idx) = []"
  by (auto simp: filter_empty_conv pair_group_def Let_def)

lemma pairing_loop_speaker:
  assumes "perm_ok perm"
  shows "distinct (map fst g) \<Longrightarrow> (s, paths) \<in> set g \<Longrightarrow>
    \<exists>idx. mset idx = mset [0..<length paths]
      \<and> filter (\<lambda>t. fst t = s) (pairing_loop perm st g) = pair_group s paths idx"
proof (induction g arbitrary: st)
  case Nil
  then show ?case by simp
next
  case (Cons a g)
  obtain k ps where a: "a = (k, ps)" by (cases a)
  obtain idx st' where pr: "perm st (length ps) = (idx, st')" by (cases "perm st (length ps)")
  have idx: "mset idx = mset [0..<length ps]"
    using assms pr unfolding perm_ok_def by (metis fst_conv)
  show ?case
  proof (cases "k = s")
    case True
    with Cons.prems a have same: "ps = paths" and notin: "s \<notin> fst ` set g"
      by (auto simp: rev_image_eqI)
    have "filter (\<lambda>t. fst t = s) (pairing_loop perm st' g) = []"
      using pairing_loop_sids[of _ perm st' g] notin by (auto simp: filter_empty_conv)
    with True same a pr idx show ?thesis
      by (auto simp: filter_pair_group_same)
  next
    case False
    with Cons.prems a have "distinct (map fst g)" "(s, paths) \<in> set g" by auto
    from Cons.IH[OF this, of st'] obtain idx' where
      "mset idx' = mset [0..<length paths]"
      "filter (\<lambda>t. fst t = s) (pairing_loop perm st' g) = pair_group s paths idx'" by blast
    with False a pr show ?thesis by (auto simp: filter_pair_group_other)
  qed
qed

text \<open>
  Claim C8.  Whatever the seed, \<open>random_pairing\<close> pairs every speaker's records among
  themselves along one permutation of the group: a group of \<open>n\<close> records gives
  \<open>(n + 1) div 2\<close> pairs of that speaker, which use every record exactly once when \<open>n\<close> is
  even and use the first record of the permutation one more time when \<open>n\<close> is odd; so
  every record of every speaker is in a pair.
\<close>

theorem random_pairing_covers:
  assumes "perm_ok perm" "distinct (map fst (groups ds))"
    "random_pairing seeded perm ds seed fresh = Inr ds'"
    "(s, paths) \<in> set (groups ds)"
  shows "\<exists>idx. mset idx = mset [0..<length paths]
    \<and> filter (\<lambda>t. fst t = s) (pairs ds') = pair_group s paths idx
    \<and> length (pair_group s paths idx) = (length paths + 1) div 2
    \<and> mset (pair_records (pair_group s paths idx))
        = mset paths + (if odd (length paths) then {#paths ! (idx ! 0)#} else {#})
    \<and> (\<forall>p \<in> set paths. \<exists>(s', p1, p2) \<in> set (pairs ds'). s' = s \<and> (p = p1 \<or> p = p2))"
proof -
  from assms(3) obtain rng where ds': "pairs ds' = pairing_loop perm rng (groups ds)"
    by (auto simp: random_pairing_def split: sum.splits)
  from pairing_loop_speaker[OF assms(1,2,4), of rng] obtain idx where
    idx: "mset idx = mset [0..<length paths]"
    and f: "filter (\<lambda>t. fst t = s) (pairs ds') = pair_group s paths idx"
    unfolding ds' by blast
  have len: "length (pair_group s paths idx) = (length paths + 1) div 2"
    using pair_group_even(1)[OF idx] pair_group_odd(1)[OF idx]
    by (cases "even (length paths)") auto
  have ms: "mset (pair_records (pair_group s paths idx))
        = mset paths + (if odd (length paths) then {#paths ! (idx ! 0)#} else {#})"
    using pair_group_even(2)[OF idx] pair_group_odd(2)[OF idx]
    by (cases "even (length paths)") auto
  have cov: "\<forall>p \<in> set paths. \<exists>(s', p1, p2) \<in> set (pairs ds'). s' = s \<and> (p = p1 \<or> p = p2)"
    using pairing_loop_covers[OF assms(1,4)] unfolding ds' by blast
  from idx f len ms cov show ?thesis by blast
qed

text \<open>
  Claim C9.  With an integer seed the outcome of \<open>random_pairing\<close> (the list of pairs, in
  order, or the exception of a rejected seed) is a function of the grouping and the seed
  alone: neither the pairs held before nor the operating system's entropy enter into it.
\<close>

theorem random_pairing_deterministic:
  assumes "groups ds = groups ds'"
  shows "map_sum id pairs (random_pairing seeded perm ds (Some s) fresh)
       = map_sum id pairs (random_pairing seeded perm ds' (Some s) fresh')"
  using assms by (simp add: random_pairing_def default_rng_def split: sum.splits)

lemma demo_init:
  "map_sum id (\<lambda>d. (groups d, pairs d)) (PairedDataset_init rot_seeded rot_perm demo_reader 1)
   = Inr ([(7, [''a/1.wav'', ''a/2.wav'', ''a/4.wav'']), (8, [''b/3.wav'']), (9, [''c/5.wav''])],
          [(7, ''a/2.wav'', ''a/4.wav''), (7, ''a/1.wav'', ''a/2.wav''),
           (8, ''b/3.wav'', ''b/3.wav''), (9, ''c/5.wav'', ''c/5.wav'')])"
  by code_simp


lemma demo_pairing:
  "map_sum id pairs (random_pairing rot_seeded rot_perm demo_dataset (Some 5) 0)
   = Inr [(7, ''a/4.wav'', ''a/1.wav''), (7, ''a/2.wav'', ''a/4.wav''),
          (8, ''b/3.wav'', ''b/6.wav''), (9, ''c/5.wav'', ''c/5.wav'')]"
  by code_simp

theorem random_pairing_covers_witness:
  "\<exists>ds' idx. perm_ok rot_perm \<and> distinct (map fst (groups demo_dataset))
     \<and> random_pairing rot_seeded rot_perm demo_dataset (Some 5) 0 = Inr ds'
     \<and> (7, [''a/1.wav'', ''a/2.wav'', ''a/4.wav'']) \<in> set (groups demo_dataset)
     \<and> pairs ds' = [(7, ''a/4.wav'', ''a/1.wav''), (7, ''a/2.wav'', ''a/4.wav''),
          (8, ''b/3.wav'', ''b/6.wav''), (9, ''c/5.wav'', ''c/5.wav'')]
     \<and> mset idx = mset [0..<length [''a/1.wav'', ''a/2.wav'', ''a/4.wav'']]
     \<and> filter (\<lambda>t. fst t = 7) (pairs ds') = pair_group 7 [''a/1.wav'', ''a/2.wav'', ''a/4.wav''] idx
     \<and> length (pair_group 7 [''a/1.wav'', ''a/2.wav'', ''a/4.wav''] idx) = 2
     \<and> (\<forall>p \<in> set [''a/1.wav'', ''a/2.wav'', ''a/4.wav''].
           \<exists>(s', p1, p2) \<in> set (pairs ds'). s' = 7 \<and> (p = p1 \<or> p = p2))"
proof -
  have d: "distinct (map fst (groups demo_dataset))"
    by (simp add: demo_dataset_def demo_groups_def)
  have m: "(7, [''a/1.wav'', ''a/2.wav'', ''a/4.wav'']) \<in> set (groups demo_dataset)"
    by (simp add: demo_dataset_def demo_groups_def)
  obtain ds' where r: "random_pairing rot_seeded rot_perm demo_dataset (Some 5) 0 = Inr ds'"
    by (simp add: random_pairing_def default_rng_def rot_seeded_def)
  have p: "pairs ds' = [(7, ''a/4.wav'', ''a/1.wav''), (7, ''a/2.wav'', ''a/4.wav''),
          (8, ''b/3.wav'', ''b/6.wav''), (9, ''c/5.wav'', ''c/5.wav'')]"
    using demo_pairing unfolding r by simp
  from random_pairing_covers[OF rot_perm_ok d r m] obtain idx where
    i1: "mset idx = mset [0..<length [''a/1.wav'', ''a/2.wav'', ''a/4.wav'']]"
    and i2: "filter (\<lambda>t. fst t = 7) (pairs ds') = pair_group 7 [''a/1.wav'', ''a/2.wav'', ''a/4.wav''] idx"
    and i3: "length (pair_group 7 [''a/1.wav'', ''a/2.wav'', ''a/4.wav''] idx) = (length [''a/1.wav'', ''a/2.wav'', ''a/4.wav''] + 1) div 2"
    and i4: "\<forall>p \<in> set [''a/1.wav'', ''a/2.wav'', ''a/4.wav''].
           \<exists>(s', p1, p2) \<in> set (pairs ds'). s' = 7 \<and> (p = p1 \<or> p = p2)"
    by blast
  from i3 have i3': "length (pair_group 7 [''a/1.wav'', ''a/2.wav'', ''a/4.wav''] idx) = 2"
    by simp
  from rot_perm_ok d r m p i1 i2 i3' i4 show ?thesis by blast
qed

theorem random_pairing_deterministic_witness:
  "groups demo_dataset = groups (demo_dataset\<lparr>pairs := [(8, ''b/3.wav'', ''b/3.wav'')]\<rparr>)
   \<and> map_sum id pairs (random_pairing rot_seeded rot_perm
         (demo_dataset\<lparr>pairs := [(8, ''b/3.wav'', ''b/3.wav'')]\<rparr>) (Some 5) 4)
     = Inr [(7, ''a/4.wav'', ''a/1.wav''), (7, ''a/2.wav'', ''a/4.wav''),
          (8, ''b/3.wav'', ''b/6.wav''), (9, ''c/5.wav'', ''c/5.wav'')]"
proof -
  have g: "groups demo_dataset = groups (demo_dataset\<lparr>pairs := [(8, ''b/3.wav'', ''b/3.wav'')]\<rparr>)"
    by simp
  from random_pairing_deterministic[OF g, of rot_seeded rot_perm 5 0 4] demo_pairing g
  show ?thesis by simp
qed

theorem dataset_invariant_witness:
  "\<exists>ds0 self' residual. perm_ok rot_perm
     \<and> PairedDataset_init rot_seeded rot_perm demo_reader 1 = Inr ds0
     \<and> pairs_within_groups ds0
     \<and> distinct (map fst (groups ds0))
     \<and> split rot_seeded rot_perm ds0 1 2 3 = Inr (self', residual)
     \<and> pairs_within_groups self' \<and> pairs_within_groups residual
     \<and> groups self' = [(7, [''a/1.wav'', ''a/2.wav'', ''a/4.wav''])]
     \<and> groups residual = [(8, [''b/3.wav'']), (9, [''c/5.wav''])]"
proof -
  obtain ds0 where i: "PairedDataset_init rot_seeded rot_perm demo_reader 1 = Inr ds0"
    using demo_init by (cases "PairedDataset_init rot_seeded rot_perm demo_reader 1") auto
  have g: "groups ds0 = [(7, [''a/1.wav'', ''a/2.wav'', ''a/4.wav'']), (8, [''b/3.wav'']), (9, [''c/5.wav''])]"
    using demo_init unfolding i by simp
  have d: "distinct (map fst (groups ds0))" by (simp add: g)
  obtain self' residual where s: "split rot_seeded rot_perm ds0 1 2 3 = Inr (self', residual)"
    by (simp add: split_def random_pairing_def default_rng_def Let_def)
  from dataset_invariant[OF rot_perm_ok, where seeded = rot_seeded and rd = demo_reader
      and fresh = 1 and ?ds0.0 = ds0 and ds = ds0 and sz = 1 and ?fresh1.0 = 2 and ?fresh2.0 = 3
      and self' = self' and residual = residual]
  have "pairs_within_groups ds0 \<and> pairs_within_groups self' \<and> pairs_within_groups residual
    \<and> groups self' = py_upto (groups ds0) 1 \<and> groups residual = py_from (groups ds0) 1"
    using i d s by blast
  moreover have "py_upto (groups ds0) 1 = [(7, [''a/1.wav'', ''a/2.wav'', ''a/4.wav''])]"
    by (simp add: g py_upto_def slice_bound_def)
  moreover have "py_from (groups ds0) 1 = [(8, [''b/3.wav'']), (9, [''c/5.wav''])]"
    by (simp add: g py_from_def slice_bound_def)
  ultimately show ?thesis using rot_perm_ok i d s by auto
qed


section \<open>The autocorrelation computed through the Fourier transform\<close>

text \<open>
  The power spectrum of a frame of even length, inverted, is the circular autocorrelation of
  the frame: the sum over the \<open>n\<close>-th roots of unity vanishes except at multiples of \<open>n\<close>.
\<close>

lemma cis_eq_1_iff_int: "cis a = 1 \<longleftrightarrow> (\<exists>q::int. a = of_int q * 2 * pi)"
proof
  assume "cis a = 1"
  then have "cos a = 1" by (simp add: complex_eq_iff)
  then show "\<exists>q::int. a = of_int q * 2 * pi" by (simp add: cos_one_2pi_int)
next
  assume "\<exists>q::int. a = of_int q * 2 * pi"
  then obtain q :: int where "a = 2 * pi * of_int q" by (auto simp: mult_ac)
  then show "cis a = 1" by simp
qed

lemma roots_of_unity_sum:
  fixes d :: int and n :: nat
  assumes "0 < n"
  shows "(\<Sum>k<n. cis (2 * pi * real k * of_int d / real n)) = (if int n dvd d then of_nat n else 0)"
proof -
  define z where "z = cis (2 * pi * of_int d / real n)"
  have pw: "cis (2 * pi * real k * of_int d / real n) = z ^ k" for k
    by (simp add: z_def DeMoivre algebra_simps)
  have "z ^ n = cis (2 * pi * of_int d)"
    unfolding z_def DeMoivre using assms by simp
  then have zn: "z ^ n = 1" by simp
  show ?thesis
  proof (cases "int n dvd d")
    case True
    then obtain q where q: "d = int n * q" ..
    have "2 * pi * of_int d / real n = 2 * pi * of_int q"
      using assms by (simp add: q)
    then have "z = 1" by (simp add: z_def)
    then show ?thesis using True by (simp add: pw)
  next
    case False
    have "z \<noteq> 1"
    proof
      assume "z = 1"
      then obtain q :: int where "2 * pi * of_int d / real n = of_int q * 2 * pi"
        unfolding z_def cis_eq_1_iff_int by blast
      then have "real_of_int d = real_of_int (q * int n)"
        using assms by (simp add: field_simps)
      then have "d = q * int n" by (simp only: of_int_eq_iff)
      with False show False by simp
    qed
    then have "(\<Sum>k<n. z ^ k) = (z ^ n - 1) / (z - 1)" by (rule geometric_sum)
    then show ?thesis using zn False by (simp add: pw)
  qed
qed

lemma dvd_shift_iff:
  assumes "j < n"
  shows "int n dvd (int t + int l - int j) \<longleftrightarrow> j = (t + l) mod n"
proof -
  have "int n dvd (int (t + l) - int j) \<longleftrightarrow> int (t + l) mod int n = int j mod int n"
    by (simp add: mod_eq_dvd_iff)
  also have "\<dots> \<longleftrightarrow> int ((t + l) mod n) = int (j mod n)"
    by (simp add: zmod_int)
  also have "\<dots> \<longleftrightarrow> (t + l) mod n = j"
    using assms by simp
  finally show ?thesis by auto
qed

lemma power_spectrum_sum:
  fixes x :: "real list" and t :: nat
  defines "n \<equiv> length x"
  defines "D \<equiv> \<lambda>k. \<Sum>j<n. complex_of_real (x ! j) * cis (- (2 * pi * real k * real j / real n))"
  assumes "0 < n"
  shows "(\<Sum>k<n. D k * cnj (D k) * cis (2 * pi * real k * real t / real n))
       = of_nat n * complex_of_real (circular_autocorr x t)"
proof -
  have tm: "D k * cnj (D k) * cis (2 * pi * real k * real t / real n)
      = (\<Sum>j<n. \<Sum>l<n. complex_of_real (x ! j * x ! l)
            * cis (2 * pi * real k * of_int (int t + int l - int j) / real n))" for k
  proof -
    have c: "cnj (D k) = (\<Sum>l<n. complex_of_real (x ! l) * cis (2 * pi * real k * real l / real n))"
      by (simp add: D_def cis_cnj)
    have d: "D k = (\<Sum>j<n. complex_of_real (x ! j) * cis (- (2 * pi * real k * real j / real n)))"
      by (simp add: D_def)
    have "D k * cnj (D k) * cis (2 * pi * real k * real t / real n)
      = (\<Sum>j<n. complex_of_real (x ! j) * cis (- (2 * pi * real k * real j / real n)))
        * (\<Sum>l<n. complex_of_real (x ! l) * cis (2 * pi * real k * real l / real n))
        * cis (2 * pi * real k * real t / real n)"
      by (subst c, subst d, rule refl)
    also have "\<dots>
      = (\<Sum>j<n. \<Sum>l<n. (complex_of_real (x ! j) * cis (- (2 * pi * real k * real j / real n)))
            * (complex_of_real (x ! l) * cis (2 * pi * real k * real l / real n))
            * cis (2 * pi * real k * real t / real n))"
      by (simp only: sum_distrib_left sum_distrib_right) (rule sum.swap)
    also have "\<dots> = (\<Sum>j<n. \<Sum>l<n. complex_of_real (x ! j * x ! l)
            * cis (2 * pi * real k * of_int (int t + int l - int j) / real n))"
    proof (intro sum.cong refl)
      fix j l
      have "cis (- (2 * pi * real k * real j / real n)) * cis (2 * pi * real k * real l / real n)
            * cis (2 * pi * real k * real t / real n)
          = cis (2 * pi * real k * of_int (int t + int l - int j) / real n)"
        by (simp add: cis_mult algebra_simps diff_divide_distrib add_divide_distrib)
      then show "complex_of_real (x ! j) * cis (- (2 * pi * real k * real j / real n))
            * (complex_of_real (x ! l) * cis (2 * pi * real k * real l / real n))
            * cis (2 * pi * real k * real t / real n)
          = complex_of_real (x ! j * x ! l)
            * cis (2 * pi * real k * of_int (int t + int l - int j) / real n)"
        by (simp add: mult_ac)
    qed
    finally show ?thesis .
  qed
  have "(\<Sum>k<n. D k * cnj (D k) * cis (2 * pi * real k * real t / real n))
      = (\<Sum>k<n. \<Sum>j<n. \<Sum>l<n. complex_of_real (x ! j * x ! l)
            * cis (2 * pi * real k * of_int (int t + int l - int j) / real n))"
    by (simp only: tm)
  also have "\<dots> = (\<Sum>j<n. \<Sum>k<n. \<Sum>l<n. complex_of_real (x ! j * x ! l)
            * cis (2 * pi * real k * of_int (int t + int l - int j) / real n))"
    by (rule sum.swap)
  also have "\<dots> = (\<Sum>j<n. \<Sum>l<n. \<Sum>k<n. complex_of_real (x ! j * x ! l)
            * cis (2 * pi * real k * of_int (int t + int l - int j) / real n))"
    by (intro sum.cong refl sum.swap)
  also have "\<dots> = (\<Sum>j<n. \<Sum>l<n. complex_of_real (x ! j * x ! l)
            * (if int n dvd (int t + int l - int j) then of_nat n else 0))"
    by (simp only: sum_distrib_left[symmetric] roots_of_unity_sum[OF assms(3)])
  also have "\<dots> = (\<Sum>l<n. \<Sum>j<n. complex_of_real (x ! j * x ! l)
            * (if int n dvd (int t + int l - int j) then of_nat n else 0))"
    by (rule sum.swap)
  also have "\<dots> = (\<Sum>l<n. \<Sum>j<n. if j = (t + l) mod n then of_nat n * complex_of_real (x ! l * x ! j) else 0)"
    by (intro sum.cong refl) (simp add: dvd_shift_iff mult_ac)
  also have "\<dots> = (\<Sum>l<n. of_nat n * complex_of_real (x ! l * x ! ((t + l) mod n)))"
    using assms(3) by (intro sum.cong refl) (simp add: sum.delta')
  also have "\<dots> = of_nat n * complex_of_real (circular_autocorr x t)"
    by (simp add: circular_autocorr_def n_def sum_distrib_left add.commute)
  finally show ?thesis .
qed

lemma half_to_full_sum:
  fixes g :: "nat \<Rightarrow> real"
  assumes "0 < h" and sym: "\<And>k. 0 < k \<Longrightarrow> k < 2 * h \<Longrightarrow> g (2 * h - k) = g k"
  shows "g 0 + (\<Sum>k = 1..<h. 2 * g k) + g h = (\<Sum>k<2 * h. g k)"
proof -
  have "(\<Sum>k<2 * h. g k) = sum g {0..<2 * h}"
    by (simp add: lessThan_atLeast0)
  also have "\<dots> = g 0 + sum g {1..<2 * h}"
    using assms(1) by (simp add: sum.atLeast_Suc_lessThan)
  also have "sum g {1..<2 * h} = sum g {1..<h} + sum g {h..<2 * h}"
    using assms(1) by (subst sum.atLeastLessThan_concat) simp_all
  also have "sum g {h..<2 * h} = g h + sum g {h + 1..<2 * h}"
    using assms(1) by (simp add: sum.atLeast_Suc_lessThan)
  also have "sum g {h + 1..<2 * h} = sum g {1..<h}"
    by (rule sum.reindex_bij_witness[where i = "\<lambda>k. 2 * h - k" and j = "\<lambda>k. 2 * h - k"])
       (auto simp: sym)
  finally show ?thesis by (simp add: sum_distrib_left)
qed

lemma cmod_dft_sym:
  fixes x :: "real list"
  defines "n \<equiv> length x"
  defines "D \<equiv> \<lambda>k. \<Sum>j<n. complex_of_real (x ! j) * cis (- (2 * pi * real k * real j / real n))"
  assumes "k \<le> n" "0 < n"
  shows "cmod (D (n - k)) = cmod (D k)"
proof -
  have "D (n - k) = cnj (D k)"
    unfolding D_def cnj_sum
  proof (intro sum.cong refl)
    fix j
    have "- (2 * pi * real (n - k) * real j / real n) = 2 * pi * real k * real j / real n - 2 * pi * real j"
      using assms(3,4) by (simp add: of_nat_diff field_simps)
    then have "cis (- (2 * pi * real (n - k) * real j / real n))
        = cis (2 * pi * real k * real j / real n) * cis (- (2 * pi * real j))"
      by (simp add: cis_mult)
    also have "cis (- (2 * pi * real j)) = 1"
    proof -
      have "cis (2 * pi * real j) = 1" by (rule cis_multiple_2pi) simp
      then have "cnj (cis (2 * pi * real j)) = 1" by simp
      then show ?thesis by (simp only: cis_cnj)
    qed
    finally show "complex_of_real (x ! j) * cis (- (2 * pi * real (n - k) * real j / real n))
        = cnj (complex_of_real (x ! j) * cis (- (2 * pi * real k * real j / real n)))"
      by (simp add: cis_cnj)
  qed
  then show ?thesis by simp
qed

lemma autocorr_circular:
  assumes "even (length x)" "0 < length x"
  shows "autocorr x = Inr (map (circular_autocorr x) [0..<length x])"
proof -
  define n where "n = length x"
  define h where "h = n div 2"
  define D where "D = (\<lambda>k. \<Sum>j<n. complex_of_real (x ! j) * cis (- (2 * pi * real k * real j / real n)))"
  define P where "P = (\<lambda>k. (cmod (D k))\<^sup>2)"
  have n: "n = 2 * h" "0 < h" "0 < n"
    using assms unfolding n_def h_def by presburger+
  have r: "rfft x = Inr (map D [0..<h + 1])"
    unfolding rfft_def D_def n_def h_def Let_def using assms(2) by simp
  define L where "L = map (\<lambda>z. complex_of_real ((cmod z)\<^sup>2)) (map D [0..<h + 1])"
  have Lk: "L ! k = complex_of_real (P k)" if "k \<le> h" for k
    using that unfolding L_def P_def by (simp del: upt_Suc)
  have len: "2 * (length L - 1) = n"
    using n by (simp add: L_def del: upt_Suc)
  have entry: "(Re (L ! 0)
       + (\<Sum>k = 1..<length L - 1. 2 * Re (L ! k * cis (2 * pi * real k * real t / real n)))
       + Re (L ! (length L - 1)) * cos (pi * real t)) / real n
     = circular_autocorr x t" for t
  proof -
    define g where "g = (\<lambda>k. P k * cos (2 * pi * real k * real t / real n))"
    have lh: "length L - 1 = h" by (simp add: L_def del: upt_Suc)
    have g0: "Re (L ! 0) = g 0"
      by (simp add: Lk g_def)
    have gh: "Re (L ! h) * cos (pi * real t) = g h"
      using n by (simp add: Lk g_def)
    have gk: "(\<Sum>k = 1..<h. 2 * Re (L ! k * cis (2 * pi * real k * real t / real n)))
        = (\<Sum>k = 1..<h. 2 * g k)"
      by (intro sum.cong refl) (simp add: Lk g_def)
    have sym: "g (2 * h - k) = g k" if "0 < k" "k < 2 * h" for k
    proof -
      have "cmod (D (n - k)) = cmod (D k)"
        unfolding D_def n_def by (rule cmod_dft_sym) (use that n in \<open>simp_all add: n_def\<close>)
      moreover have "cos (2 * pi * real (n - k) * real t / real n) = cos (2 * pi * real k * real t / real n)"
      proof -
        have "2 * pi * real (n - k) * real t / real n = 2 * pi * real t - 2 * pi * real k * real t / real n"
          using that n by (simp add: of_nat_diff field_simps)
        then have "cos (2 * pi * real (n - k) * real t / real n)
            = cos (2 * pi * real k * real t / real n - 2 * pi * of_int (int t))"
          by (metis cos_minus minus_diff_eq of_int_of_nat_eq)
        also have "\<dots> = cos (2 * pi * real k * real t / real n)"
          by (simp only: cos_diff cos_int_2pin sin_int_2pin)
        finally show ?thesis .
      qed
      ultimately show ?thesis by (simp add: g_def P_def n)
    qed
    have "g 0 + (\<Sum>k = 1..<h. 2 * g k) + g h = (\<Sum>k<2 * h. g k)"
      using n(2) sym by (rule half_to_full_sum)
    also have "\<dots> = Re (\<Sum>k<n. D k * cnj (D k) * cis (2 * pi * real k * real t / real n))"
      by (simp add: g_def P_def n(1) complex_norm_square[symmetric])
    also have "\<dots> = real n * circular_autocorr x t"
      unfolding D_def n_def using power_spectrum_sum[of x t] n(3) by (simp add: n_def)
    finally have "g 0 + (\<Sum>k = 1..<h. 2 * g k) + g h = real n * circular_autocorr x t" .
    then have "Re (L ! 0)
       + (\<Sum>k = 1..<h. 2 * Re (L ! k * cis (2 * pi * real k * real t / real n)))
       + Re (L ! h) * cos (pi * real t) = real n * circular_autocorr x t"
      by (simp only: g0 gh gk)
    then show ?thesis using n(3) unfolding lh by simp
  qed
  have "irfft L = Inr (map (circular_autocorr x) [0..<n])"
    unfolding irfft_def Let_def len using n(3) by (simp only: entry) simp
  then show ?thesis
    unfolding autocorr_def r L_def n_def by simp
qed


section \<open>The difference function and its normalization\<close>

lemma length_cumsum_from: "length (cumsum_from a xs) = length xs"
  by (induction xs arbitrary: a) simp_all

lemma nth_cumsum_from: "k < length xs \<Longrightarrow> cumsum_from a xs ! k = a + (\<Sum>j<Suc k. xs ! j)"
proof (induction xs arbitrary: a k)
  case Nil
  then show ?case by simp
next
  case (Cons y ys)
  show ?case
  proof (cases k)
    case 0
    then show ?thesis by simp
  next
    case (Suc i)
    with Cons.prems have "i < length ys" by simp
    from Cons.IH[OF this, of "a + y"] Suc show ?thesis
      by (simp add: sum.lessThan_Suc_shift[of "\<lambda>j. (y # ys) ! j"] del: sum.lessThan_Suc)
  qed
qed

lemma length_cumsum [simp]: "length (cumsum xs) = length xs"
  by (simp add: cumsum_def length_cumsum_from)

lemma nth_cumsum: "k < length xs \<Longrightarrow> cumsum xs ! k = (\<Sum>j<Suc k. xs ! j)"
  by (simp add: cumsum_def nth_cumsum_from del: sum.lessThan_Suc)

lemma nth_padded_cumsum:
  assumes "k \<le> length x"
  shows "(0 # cumsum (map (\<lambda>v. v\<^sup>2) x)) ! k = energy x k"
proof (cases k)
  case 0
  then show ?thesis by (simp add: energy_def)
next
  case (Suc i)
  with assms have "i < length x" by simp
  then have "cumsum (map (\<lambda>v. v\<^sup>2) x) ! i = (\<Sum>j<Suc i. (x ! j)\<^sup>2)"
    by (subst nth_cumsum) (simp_all del: sum.lessThan_Suc)
  with Suc show ?thesis by (simp add: energy_def del: sum.lessThan_Suc)
qed

lemma bop_same: "length xs = length ys \<Longrightarrow> bop f xs ys = Inr (map2 f xs ys)"
  by (simp add: bop_def)

lemma bop_scalar: "bop f xs [y] = Inr (map (\<lambda>x. f x y) xs)"
proof (cases "length xs = 1")
  case True
  then obtain a where "xs = [a]" by (cases xs) auto
  then show ?thesis by (simp add: bop_def)
next
  case False
  then show ?thesis by (simp add: bop_def)
qed

lemma difference_formula:
  assumes "even (length x)" "0 < length x" "w = int (length x)" "0 \<le> tau_max" "tau_max \<le> w"
  shows "difference w tau_max x =
    Inr (map (\<lambda>tau. energy x (length x - 1 - tau) - 2 * circular_autocorr x tau
                     + energy x (length x) - energy x tau) [0..<nat tau_max])"
proof -
  define n where "n = length x"
  define T where "T = nat tau_max"
  define cs where "cs = 0 # cumsum (map (\<lambda>v. v\<^sup>2) x)"
  have T: "T \<le> n" "tau_max = int T" using assms by (auto simp: T_def n_def)
  have lcs: "length cs = n + 1" by (simp add: cs_def n_def)
  have csk: "cs ! k = energy x k" if "k \<le> n" for k
    using that unfolding cs_def n_def by (rule nth_padded_cumsum)
  have A: "py_slice cs (w - tau_max) w = take T (drop (n - T) cs)"
    using T assms(3) by (simp add: py_slice_def slice_bound_def lcs n_def[symmetric] Let_def nat_diff_distrib)
  have B: "py_upto (map (circular_autocorr x) [0..<n]) tau_max = map (circular_autocorr x) [0..<T]"
    using T by (simp add: py_upto_def slice_bound_def take_map)
  have C: "py_upto cs tau_max = take T cs"
    using T by (simp add: py_upto_def slice_bound_def lcs)
  have G: "gather cs w = Inr (cs ! n)"
    using assms(3) by (simp add: gather_def lcs n_def[symmetric])
  have t1: "bop (-) (rev (take T (drop (n - T) cs))) (map ((*) 2) (map (circular_autocorr x) [0..<T]))
      = Inr (map2 (-) (rev (take T (drop (n - T) cs))) (map ((*) 2) (map (circular_autocorr x) [0..<T])))"
    using T by (intro bop_same) (simp add: lcs)
  define t1v where "t1v = map2 (-) (rev (take T (drop (n - T) cs))) (map ((*) 2) (map (circular_autocorr x) [0..<T]))"
  have lt1: "length t1v = T" using T by (simp add: t1v_def lcs)
  have t3: "bop (-) (map (\<lambda>v. v + cs ! n) t1v) (take T cs)
      = Inr (map2 (-) (map (\<lambda>v. v + cs ! n) t1v) (take T cs))"
    using T by (intro bop_same) (simp add: lt1 lcs)
  have res: "map2 (-) (map (\<lambda>v. v + cs ! n) t1v) (take T cs)
      = map (\<lambda>tau. energy x (n - 1 - tau) - 2 * circular_autocorr x tau + energy x n - energy x tau) [0..<T]"
  proof (rule nth_equalityI)
    show "length (map2 (-) (map (\<lambda>v. v + cs ! n) t1v) (take T cs))
        = length (map (\<lambda>tau. energy x (n - 1 - tau) - 2 * circular_autocorr x tau + energy x n - energy x tau) [0..<T])"
      using T by (simp add: lt1 lcs)
  next
    fix i
    assume "i < length (map2 (-) (map (\<lambda>v. v + cs ! n) t1v) (take T cs))"
    then have i: "i < T" using T by (simp add: lt1 lcs)
    have "rev (take T (drop (n - T) cs)) ! i = cs ! (n - 1 - i)"
      using i T by (simp add: rev_nth lcs)
    then have "t1v ! i = energy x (n - 1 - i) - 2 * circular_autocorr x i"
      using i T by (simp add: t1v_def lcs csk)
    then show "map2 (-) (map (\<lambda>v. v + cs ! n) t1v) (take T cs) ! i
        = map (\<lambda>tau. energy x (n - 1 - tau) - 2 * circular_autocorr x tau + energy x n - energy x tau) [0..<T] ! i"
      using i T by (simp add: lt1 lcs csk)
  qed
  show ?thesis
    unfolding difference_def autocorr_circular[OF assms(1,2)] sum.case Let_def
      cs_def[symmetric] n_def[symmetric] A B t1 t1v_def[symmetric] G bop_scalar C t3 res
    by (simp add: T_def)
qed

lemma circular_autocorr_0: "circular_autocorr x 0 = energy x (length x)"
  by (simp add: circular_autocorr_def energy_def power2_eq_square)

lemma energy_Suc: "energy x (Suc k) = energy x k + (x ! k)\<^sup>2"
  by (simp add: energy_def)

text \<open>
  Claim C1.  The difference function of the code is not the sum of squared differences the
  claim equates it with.  For every frame of even length \<open>w\<close> and every \<open>lmax\<close> from 1 to \<open>w\<close>
  its entry at lag \<open>tau\<close> is \<open>c[W - 1 - tau] - 2 a[tau] + c[W] - c[tau]\<close> with the circular
  autocorrelation \<open>a\<close>: the first term is not the \<open>c[W - tau]\<close> of the code's comment.  At
  lag 0 it is minus the square of the frame's last sample, where the sum of squared
  differences is 0.
\<close>

theorem difference_not_squared_difference:
  assumes "even (length x)" "0 < length x" "w = int (length x)" "1 \<le> tau_max" "tau_max \<le> w"
  shows "\<exists>d. difference w tau_max x = Inr d \<and> length d = nat tau_max
           \<and> (\<forall>tau<nat tau_max. d ! tau = energy x (length x - 1 - tau) - 2 * circular_autocorr x tau
                                     + energy x (length x) - energy x tau)
           \<and> d ! 0 = - (x ! (length x - 1))\<^sup>2 \<and> squared_difference x 0 = 0"
proof -
  define d where "d = map (\<lambda>tau. energy x (length x - 1 - tau) - 2 * circular_autocorr x tau
                     + energy x (length x) - energy x tau) [0..<nat tau_max]"
  have "difference w tau_max x = Inr d"
    unfolding d_def using assms by (intro difference_formula) simp_all
  moreover have "length d = nat tau_max" by (simp add: d_def)
  moreover have "\<forall>tau<nat tau_max. d ! tau = energy x (length x - 1 - tau) - 2 * circular_autocorr x tau
                                     + energy x (length x) - energy x tau"
    by (simp add: d_def)
  moreover have "d ! 0 = - (x ! (length x - 1))\<^sup>2"
  proof -
    obtain m where m: "length x = Suc m" using assms(2) by (cases "length x") auto
    have "d ! 0 = energy x m - 2 * energy x (Suc m) + energy x (Suc m) - energy x 0"
      using assms(4) by (simp add: d_def circular_autocorr_0 m)
    also have "\<dots> = - (x ! m)\<^sup>2" by (simp add: energy_Suc) (simp add: energy_def)
    finally show ?thesis by (simp add: m)
  qed
  moreover have "squared_difference x 0 = 0" by (simp add: squared_difference_def)
  ultimately show ?thesis by blast
qed

lemma lessThan_2: "{..<(2::nat)} = {0, 1}"
  by auto

lemma difference_example: "difference 2 2 [1, 2] = Inr [- 4, - 4]"
proof -
  have "difference 2 2 [1, 2] =
    Inr (map (\<lambda>tau. energy [1, 2] (length [1, 2 :: real] - 1 - tau) - 2 * circular_autocorr [1, 2] tau
                     + energy [1, 2] (length [1, 2 :: real]) - energy [1, 2] tau) [0..<nat 2])"
    by (rule difference_formula) simp_all
  also have "[0..<nat 2] = [0, 1]" by (simp add: upt_rec)
  finally show ?thesis
    by (simp add: energy_def circular_autocorr_def lessThan_2)
qed

theorem difference_not_squared_difference_witness:
  "even (length [1, 2 :: real]) \<and> 0 < length [1, 2 :: real] \<and> (2 :: int) = int (length [1, 2 :: real])
   \<and> (1 :: int) \<le> 2 \<and> difference 2 2 [1, 2] = Inr [- 4, - 4]
   \<and> [- 4, - 4 :: real] ! 0 = - ([1, 2] ! (length [1, 2 :: real] - 1))\<^sup>2
   \<and> map (squared_difference [1, 2]) [0, 1] = [0, 1]"
proof -
  have "\<exists>d. difference 2 2 [1, 2] = Inr d \<and> length d = nat 2
           \<and> (\<forall>tau<nat 2. d ! tau = energy [1, 2] (length [1, 2 :: real] - 1 - tau)
                               - 2 * circular_autocorr [1, 2] tau
                               + energy [1, 2] (length [1, 2 :: real]) - energy [1, 2] tau)
           \<and> d ! 0 = - ([1, 2] ! (length [1, 2 :: real] - 1))\<^sup>2 \<and> squared_difference [1, 2] 0 = 0"
    by (rule difference_not_squared_difference) simp_all
  then have "[- 4, - 4 :: real] ! 0 = - ([1, 2] ! (length [1, 2 :: real] - 1))\<^sup>2"
    by (simp add: difference_example)
  then show ?thesis
    by (simp add: difference_example squared_difference_def lessThan_2)
qed

lemma nth_arange: "i < nat t \<Longrightarrow> map real_of_int [1..t] ! i = real (Suc i)"
  by (simp add: nth_upto)

lemma cumdiff_result:
  assumes "length diff = nat tau_max" "1 \<le> tau_max"
  shows "\<exists>c. cumdiff tau_max diff = Inr c \<and> length c = nat tau_max \<and> c ! 0 = Some 1
    \<and> (\<forall>tau. 1 \<le> tau \<and> tau < nat tau_max \<longrightarrow>
          c ! tau = (if (\<Sum>k = 1..tau. diff ! k) + 1 / 10 ^ 7 = 0 then None
                     else Some (real tau * diff ! tau / ((\<Sum>k = 1..tau. diff ! k) + 1 / 10 ^ 7))))"
proof -
  define T where "T = nat tau_max"
  define d1 where "d1 = drop 1 diff"
  define q where "q = map2 fdiv d1 (map (\<lambda>c. c + 1 / 10 ^ 7) (cumsum d1))"
  define c where "c = Some 1 # map2 (\<lambda>v k. map_option (\<lambda>r. r * k) v) q (map real_of_int [1..tau_max - 1])"
  have T: "0 < T" "length diff = T" "nat (tau_max - 1) = T - 1" using assms by (auto simp: T_def)
  have pf: "py_from diff 1 = d1"
    using T by (simp add: py_from_def slice_bound_def d1_def)
  have ld1: "length d1 = T - 1" by (simp add: d1_def T)
  have lq: "length q = T - 1" by (simp add: q_def ld1)
  have run: "cumdiff tau_max diff = Inr c"
    unfolding cumdiff_def Let_def pf q_def[symmetric] c_def
    by (subst bop_same) (simp_all add: lq T)
  have c0: "c ! 0 = Some 1" by (simp add: c_def)
  have lc: "length c = T" using T by (simp add: c_def lq)
  have ctau: "c ! tau = (if (\<Sum>k = 1..tau. diff ! k) + 1 / 10 ^ 7 = 0 then None
                     else Some (real tau * diff ! tau / ((\<Sum>k = 1..tau. diff ! k) + 1 / 10 ^ 7)))"
    if "1 \<le> tau" "tau < T" for tau
  proof -
    from that(1) have "tau \<noteq> 0" by simp
    then obtain i where i: "tau = Suc i" by (cases tau) auto
    have iT: "i < T - 1" using that i by simp
    have d1i: "d1 ! j = diff ! Suc j" if "j < T - 1" for j
      using that T by (simp add: d1_def)
    have "cumsum d1 ! i = (\<Sum>j<Suc i. d1 ! j)"
      using iT by (intro nth_cumsum) (simp add: ld1)
    also have "\<dots> = (\<Sum>j<Suc i. diff ! Suc j)"
      using iT by (intro sum.cong refl d1i) simp
    also have "\<dots> = (\<Sum>k = 1..Suc i. diff ! k)"
      by (rule sum.reindex_bij_witness[where i = "\<lambda>k. k - 1" and j = Suc]) auto
    finally have cs: "cumsum d1 ! i = (\<Sum>k = 1..tau. diff ! k)" by (simp add: i)
    have "q ! i = fdiv (diff ! tau) ((\<Sum>k = 1..tau. diff ! k) + 1 / 10 ^ 7)"
      using iT by (simp add: q_def ld1 d1i cs i)
    moreover have "map real_of_int [1..tau_max - 1] ! i = real tau"
      using iT T by (simp add: nth_arange i)
    ultimately have "c ! tau = map_option (\<lambda>r. r * real tau)
          (fdiv (diff ! tau) ((\<Sum>k = 1..tau. diff ! k) + 1 / 10 ^ 7))"
      using iT T by (simp add: c_def i lq)
    then show ?thesis by (simp add: fdiv_def)
  qed
  from run lc c0 ctau show ?thesis unfolding T_def by blast
qed


text \<open>
  Claim C4.  For a difference function of length \<open>lmax \<ge> 1\<close> the normalized vector has length
  \<open>lmax\<close>, is exactly 1 at index 0 and, at every lag \<open>tau \<ge> 1\<close>, is
  \<open>tau * diff[tau] / (diff[1] + ... + diff[tau] + 1e-7)\<close>: the running sum, not the mean, plus
  epsilon, then the multiplication by the lag (non-finite when that divisor is zero).
\<close>

theorem cumdiff_formula:
  assumes "length diff = nat tau_max" "1 \<le> tau_max"
  shows "\<exists>c. cumdiff tau_max diff = Inr c \<and> length c = nat tau_max \<and> c ! 0 = Some 1
    \<and> (\<forall>tau. 1 \<le> tau \<and> tau < nat tau_max \<longrightarrow>
          c ! tau = (if (\<Sum>k = 1..tau. diff ! k) + 1 / 10 ^ 7 = 0 then None
                     else Some (real tau * diff ! tau / ((\<Sum>k = 1..tau. diff ! k) + 1 / 10 ^ 7))))"
  using assms by (rule cumdiff_result)

lemma upto_1_2: "[1..2] = [1, 2 :: int]"
  by (simp add: upto_rec1)

lemma cumdiff_example:
  "cumdiff 3 [5, 2, 6] = Inr [Some 1, Some (2 / (2 + 1 / 10 ^ 7)), Some (12 / (8 + 1 / 10 ^ 7))]"
  by (simp add: cumdiff_def py_from_def slice_bound_def cumsum_def bop_def fdiv_def upto_1_2)

theorem cumdiff_formula_witness:
  "length [5, 2, 6 :: real] = nat 3 \<and> (1 :: int) \<le> 3
   \<and> cumdiff 3 [5, 2, 6] = Inr [Some 1, Some (2 / (2 + 1 / 10 ^ 7)), Some (12 / (8 + 1 / 10 ^ 7))]
   \<and> (\<exists>c. cumdiff 3 [5, 2, 6] = Inr c \<and> length c = nat 3 \<and> c ! 0 = Some 1
    \<and> (\<forall>tau. 1 \<le> tau \<and> tau < nat 3 \<longrightarrow>
          c ! tau = (if (\<Sum>k = 1..tau. [5, 2, 6 :: real] ! k) + 1 / 10 ^ 7 = 0 then None
                     else Some (real tau * [5, 2, 6] ! tau
                                / ((\<Sum>k = 1..tau. [5, 2, 6 :: real] ! k) + 1 / 10 ^ 7)))))"
proof -
  have "\<exists>c. cumdiff 3 [5, 2, 6] = Inr c \<and> length c = nat 3 \<and> c ! 0 = Some 1
    \<and> (\<forall>tau. 1 \<le> tau \<and> tau < nat 3 \<longrightarrow>
          c ! tau = (if (\<Sum>k = 1..tau. [5, 2, 6 :: real] ! k) + 1 / 10 ^ 7 = 0 then None
                     else Some (real tau * [5, 2, 6] ! tau
                                / ((\<Sum>k = 1..tau. [5, 2, 6 :: real] ! k) + 1 / 10 ^ 7))))"
    by (rule cumdiff_formula) simp_all
  moreover have "length [5, 2, 6 :: real] = nat 3 \<and> (1 :: int) \<le> 3" by simp
  ultimately show ?thesis using cumdiff_example by blast
qed

section \<open>Framing, the MIDI grid and the interpolation\<close>

lemma map_err_Inr_iff: "map_err f xs = Inr ys \<longleftrightarrow> list_all2 (\<lambda>x y. f x = Inr y) xs ys"
proof (induction xs arbitrary: ys)
  case Nil
  then show ?case by auto
next
  case (Cons x xs)
  show ?case
  proof (cases ys)
    case Nil
    then show ?thesis by (auto split: sum.splits)
  next
    case (Cons y ys')
    with Cons.IH[of ys'] show ?thesis by (auto split: sum.splits)
  qed
qed

lemma map_err_length: "map_err f xs = Inr ys \<Longrightarrow> length ys = length xs"
  by (simp add: map_err_Inr_iff list_all2_lengthD)

lemma map_err_nth: "map_err f xs = Inr ys \<Longrightarrow> i < length xs \<Longrightarrow> f (xs ! i) = Inr (ys ! i)"
  by (auto simp: map_err_Inr_iff dest: list_all2_nthD)

lemma map_err_map: "(\<And>x. x \<in> set xs \<Longrightarrow> f x = Inr (g x)) \<Longrightarrow> map_err f xs = Inr (map g xs)"
  by (induction xs) simp_all

lemma framing_ok:
  assumes "0 \<le> w" "0 < s"
  shows "(case pad_zeros x w of Inl e \<Rightarrow> Inl e | Inr p \<Rightarrow> unfold p w s)
    = Inr (map (\<lambda>i. take (nat w) (drop (i * nat s) (x @ replicate (nat w) 0)))
             [0..<length x div nat s + 1])"
  using assms by (simp add: pad_zeros_def unfold_def)

lemma framing_Inr:
  assumes "(case pad_zeros x w of Inl e \<Rightarrow> Inl e | Inr p \<Rightarrow> unfold p w s) = Inr fs"
  shows "0 \<le> w \<and> 0 < s \<and> length fs = length x div nat s + 1"
proof -
  have w: "0 \<le> w"
  proof (rule ccontr)
    assume "\<not> 0 \<le> w"
    then have "(case pad_zeros x w of Inl e \<Rightarrow> Inl e | Inr p \<Rightarrow> unfold p w s) = Inl RuntimeError"
      by (simp add: pad_zeros_def unfold_def)
    with assms show False by simp
  qed
  have s: "0 < s"
  proof (rule ccontr)
    assume "\<not> 0 < s"
    then have "(case pad_zeros x w of Inl e \<Rightarrow> Inl e | Inr p \<Rightarrow> unfold p w s) = Inl RuntimeError"
      by (simp add: pad_zeros_def unfold_def)
    with assms show False by simp
  qed
  from assms framing_ok[OF w s, of x] show ?thesis using w s by auto
qed

lemma frame_length:
  assumes "i \<le> length x div s"
  shows "length (take w (drop (i * s) (x @ replicate w (0::real)))) = w"
proof -
  have "i * s \<le> (length x div s) * s"
    using assms by (rule mult_le_mono1)
  also have "\<dots> \<le> length x" by simp
  finally have "i * s \<le> length x" .
  then show ?thesis by simp
qed

lemma interpolate_out_of_range:
  assumes "int (length c) \<le> \<lceil>L\<rceil>"
  shows "interpolate c L = Inl IndexError"
proof -
  have "0 \<le> \<lceil>L\<rceil>" using assms by linarith
  with assms have "gather c \<lceil>L\<rceil> = Inl IndexError"
    by (simp add: gather_def)
  then show ?thesis by (simp add: interpolate_def Let_def)
qed

lemma interpolate_in_range:
  assumes "0 \<le> \<lfloor>L\<rfloor>" "\<lceil>L\<rceil> < int (length c)"
  shows "\<exists>v. interpolate c L = Inr v"
proof -
  have "\<lfloor>L\<rfloor> \<le> \<lceil>L\<rceil>" by (rule floor_le_ceiling)
  with assms have "0 \<le> \<lceil>L\<rceil>" "\<lfloor>L\<rfloor> < int (length c)" by linarith+
  with assms show ?thesis by (simp add: interpolate_def gather_def Let_def)
qed

lemma midi_range_pos:
  assumes "0 < sr cfg" "0 < lmin cfg" "0 < lmax cfg"
  shows "midi_range cfg =
    Inr (\<lceil>12 * log 2 (real_of_int (sr cfg) / real_of_int (440 * lmax cfg)) + 69\<rceil>,
         (let r = 12 * log 2 (real_of_int (sr cfg) / real_of_int (440 * lmin cfg)) + 69
          in if 0 \<le> r then \<lfloor>r\<rfloor> else \<lceil>r\<rceil>))"
  using assms by (simp add: midi_range_def l2m_def np_log2_def np_ceil_def py_int_def Let_def)

lemma log2_ratio_ceiling:
  assumes "0 < a" "a \<le> b" "b ^ 12 < 2 * a ^ 12"
  shows "\<lceil>12 * log 2 (a / b) + 69\<rceil> = (69 :: int)"
proof -
  have pos: "0 < a / b" using assms by simp
  have "a / b \<le> 1" using assms by simp
  then have up: "log 2 (a / b) \<le> 0" using pos by simp
  have "(2 powr (- 1 / 12)) ^ 12 = 2 powr (- 1 / 12 * real 12)"
    by (simp only: powr_powr powr_realpow[symmetric] powr_gt_zero)
  also have "\<dots> = 1 / 2" by (simp add: powr_minus_divide)
  also have "\<dots> < (a / b) ^ 12"
    using assms by (simp add: power_divide field_simps)
  finally have "2 powr (- 1 / 12) < a / b"
    by (rule power_less_imp_less_base) (use pos in simp)
  then have "- 1 / 12 < log 2 (a / b)"
    using pos by (simp add: less_log_iff)
  with up have "68 < 12 * log 2 (a / b) + 69" "12 * log 2 (a / b) + 69 \<le> 69" by simp_all
  then show ?thesis by (simp add: ceiling_eq_iff)
qed

lemma midi_range_A:
  "midi_range \<lparr>strides = s, windows = 52, lmin = 50, lmax = 51, sr = 22000\<rparr> = Inr (69, 69)"
proof -
  have "(22000 :: real) / (440 * 51) = 50 / 51" by simp
  moreover have "\<lceil>12 * log 2 (50 / 51 :: real) + 69\<rceil> = (69 :: int)"
    by (rule log2_ratio_ceiling) simp_all
  ultimately show ?thesis by (simp add: midi_range_pos)
qed

lemma midi_range_B:
  "midi_range \<lparr>strides = s, windows = 50, lmin = 25, lmax = 50, sr = 22000\<rparr> = Inr (69, 81)"
  by (simp add: midi_range_pos)


lemma m2l_69: "m2l 22000 69 = 50"
  by (simp add: m2l_def)

section \<open>The stages of \<open>forward\<close>\<close>

lemma normalized_ok:
  assumes "even (length fr)" "0 < length fr" "w = int (length fr)" "1 \<le> tau_max" "tau_max \<le> w"
  shows "\<exists>c. (case difference w tau_max fr of Inl e \<Rightarrow> Inl e | Inr d \<Rightarrow> cumdiff tau_max d) = Inr c
           \<and> length c = nat tau_max"
proof -
  define d where "d = map (\<lambda>tau. energy fr (length fr - 1 - tau) - 2 * circular_autocorr fr tau
                     + energy fr (length fr) - energy fr tau) [0..<nat tau_max]"
  have df: "difference w tau_max fr = Inr d"
    unfolding d_def using assms by (intro difference_formula) simp_all
  have "length d = nat tau_max" by (simp add: d_def)
  from cumdiff_result[OF this assms(4)] obtain c where "cumdiff tau_max d = Inr c" "length c = nat tau_max"
    by blast
  with df show ?thesis by simp
qed

lemma forward_Inr:
  assumes "forward cfg audio = Inr out"
  shows "\<exists>cds mmin mmax.
    midi_range cfg = Inr (mmin, mmax)
    \<and> map_err (map_err (\<lambda>c. map_err (interpolate c) (map (m2l (sr cfg)) [mmin..mmax]))) cds = Inr out
    \<and> length cds = length audio
    \<and> (\<forall>i<length audio. length (cds ! i) = length (audio ! i) div nat (strides cfg) + 1)"
proof -
  define framing where "framing = (\<lambda>x. case pad_zeros x (windows cfg) of
      Inl e \<Rightarrow> Inl e | Inr p \<Rightarrow> unfold p (windows cfg) (strides cfg))"
  define norm where "norm = (\<lambda>fr. case difference (windows cfg) (lmax cfg) fr of
      Inl e \<Rightarrow> Inl e | Inr d \<Rightarrow> cumdiff (lmax cfg) d)"
  from assms obtain frames where f: "map_err framing audio = Inr frames"
    unfolding forward_def Let_def framing_def by (auto split: sum.splits)
  from assms f obtain cds where c: "map_err (map_err norm) frames = Inr cds"
    unfolding forward_def Let_def framing_def[symmetric] norm_def by (auto split: sum.splits)
  from assms f c obtain mmin mmax where m: "midi_range cfg = Inr (mmin, mmax)"
    unfolding forward_def Let_def framing_def[symmetric] norm_def[symmetric]
    by (auto split: sum.splits)
  from assms f c m
  have o: "map_err (map_err (\<lambda>c. map_err (interpolate c) (map (m2l (sr cfg)) [mmin..mmax]))) cds = Inr out"
    unfolding forward_def Let_def framing_def[symmetric] norm_def[symmetric]
    by simp
  have l: "length cds = length audio"
    using map_err_length[OF c] map_err_length[OF f] by simp
  have r: "length (cds ! i) = length (audio ! i) div nat (strides cfg) + 1" if "i < length audio" for i
  proof -
    have i: "i < length frames" using that map_err_length[OF f] by simp
    have fi: "framing (audio ! i) = Inr (frames ! i)"
      using map_err_nth[OF f that] .
    have ci: "map_err norm (frames ! i) = Inr (cds ! i)"
      using map_err_nth[OF c i] .
    have "length (frames ! i) = length (audio ! i) div nat (strides cfg) + 1"
      using framing_Inr[OF fi[unfolded framing_def]] by simp
    with map_err_length[OF ci] show ?thesis by simp
  qed
  from r have "\<forall>i<length audio. length (cds ! i) = length (audio ! i) div nat (strides cfg) + 1"
    by blast
  with m o l show ?thesis by blast
qed

lemma forward_shape:
  assumes "forward cfg audio = Inr out"
  shows "length out = length audio
    \<and> (\<forall>i<length audio. length (out ! i) = length (audio ! i) div nat (strides cfg) + 1
          \<and> (\<forall>fr \<in> set (out ! i). length fr = grid_size cfg))"
proof -
  from forward_Inr[OF assms] obtain cds mmin mmax where
    m: "midi_range cfg = Inr (mmin, mmax)"
    and o: "map_err (map_err (\<lambda>c. map_err (interpolate c) (map (m2l (sr cfg)) [mmin..mmax]))) cds = Inr out"
    and l: "length cds = length audio"
    and r: "\<forall>i<length audio. length (cds ! i) = length (audio ! i) div nat (strides cfg) + 1"
    by blast
  have gs: "grid_size cfg = length (map (m2l (sr cfg)) [mmin..mmax])"
    by (simp add: grid_size_def m)
  have l1: "length out = length audio"
    using map_err_length[OF o] l by simp
  have row: "length (out ! i) = length (audio ! i) div nat (strides cfg) + 1
          \<and> (\<forall>fr \<in> set (out ! i). length fr = grid_size cfg)" if "i < length audio" for i
  proof -
    have i: "i < length cds" using that l by simp
    have oi: "map_err (\<lambda>c. map_err (interpolate c) (map (m2l (sr cfg)) [mmin..mmax])) (cds ! i) = Inr (out ! i)"
      using map_err_nth[OF o i] .
    have "length (out ! i) = length (cds ! i)"
      using map_err_length[OF oi] by simp
    moreover have "length fr = grid_size cfg" if "fr \<in> set (out ! i)" for fr
    proof -
      from that obtain j where j: "j < length (out ! i)" "fr = out ! i ! j"
        by (auto simp: in_set_conv_nth)
      then have "j < length (cds ! i)" using map_err_length[OF oi] by simp
      from map_err_nth[OF oi this]
      have "map_err (interpolate (cds ! i ! j)) (map (m2l (sr cfg)) [mmin..mmax]) = Inr fr"
        using j by simp
      from map_err_length[OF this] show ?thesis by (simp only: gs)
    qed
    ultimately show ?thesis using r that by simp
  qed
  from l1 row show ?thesis by blast
qed

lemma map_err_ex:
  assumes "\<And>x. x \<in> set xs \<Longrightarrow> \<exists>y. f x = Inr y \<and> P y"
  shows "\<exists>ys. map_err f xs = Inr ys \<and> length ys = length xs \<and> (\<forall>y \<in> set ys. P y)"
  using assms
proof (induction xs)
  case Nil
  then show ?case by simp
next
  case (Cons x xs)
  from Cons.prems[of x] obtain y where y: "f x = Inr y" "P y" by auto
  from Cons.IH Cons.prems obtain ys where "map_err f xs = Inr ys" "length ys = length xs" "\<forall>y \<in> set ys. P y"
    by auto
  with y show ?case by auto
qed

lemma forward_stages:
  assumes "even (windows cfg)" "0 < windows cfg" "0 < strides cfg"
    "1 \<le> lmax cfg" "lmax cfg \<le> windows cfg"
  shows "\<exists>cds. map_err (map_err (\<lambda>fr. case difference (windows cfg) (lmax cfg) fr of
                                          Inl e \<Rightarrow> Inl e | Inr d \<Rightarrow> cumdiff (lmax cfg) d))
                 (map (\<lambda>x. map (\<lambda>i. take (nat (windows cfg)) (drop (i * nat (strides cfg))
                                         (x @ replicate (nat (windows cfg)) 0)))
                               [0..<length x div nat (strides cfg) + 1]) audio) = Inr cds
    \<and> length cds = length audio
    \<and> (\<forall>row \<in> set cds. row \<noteq> [] \<and> (\<forall>c \<in> set row. length c = nat (lmax cfg)))"
proof -
  define w where "w = windows cfg"
  define norm where "norm = (\<lambda>fr. case difference w (lmax cfg) fr of
      Inl e \<Rightarrow> Inl e | Inr d \<Rightarrow> cumdiff (lmax cfg) d)"
  define fs where "fs = (\<lambda>x. map (\<lambda>i. take (nat w) (drop (i * nat (strides cfg)) (x @ replicate (nat w) (0::real))))
                               [0..<length x div nat (strides cfg) + 1])"
  have frame: "\<exists>c. norm fr = Inr c \<and> length c = nat (lmax cfg)" if "fr \<in> set (fs x)" for fr x
  proof -
    from that have "fr \<in> (\<lambda>i. take (nat w) (drop (i * nat (strides cfg)) (x @ replicate (nat w) 0)))
        ` set [0..<length x div nat (strides cfg) + 1]"
      unfolding fs_def by (simp only: set_map)
    then obtain i where "i \<le> length x div nat (strides cfg)"
      "fr = take (nat w) (drop (i * nat (strides cfg)) (x @ replicate (nat w) 0))"
      by (auto simp add: less_Suc_eq_le simp del: upt_Suc drop_append take_append)
    then have len: "length fr = nat w"
      using frame_length[of i x "nat (strides cfg)" "nat w"] by simp
    show ?thesis
      unfolding norm_def
      by (rule normalized_ok) (use len assms in \<open>simp_all add: w_def even_nat_iff\<close>)
  qed
  have row: "\<exists>r. map_err norm (fs x) = Inr r \<and> (r \<noteq> [] \<and> (\<forall>c \<in> set r. length c = nat (lmax cfg)))" for x
  proof -
    from map_err_ex[of "fs x" norm "\<lambda>c. length c = nat (lmax cfg)"] frame[of _ x]
    obtain r where r: "map_err norm (fs x) = Inr r" "length r = length (fs x)"
      "\<forall>c \<in> set r. length c = nat (lmax cfg)" by blast
    have "length (fs x) = length x div nat (strides cfg) + 1" by (simp add: fs_def)
    with r have "r \<noteq> []" by auto
    with r show ?thesis by blast
  qed
  have "\<exists>cds. map_err (map_err norm) (map fs audio) = Inr cds \<and> length cds = length (map fs audio)
      \<and> (\<forall>row \<in> set cds. row \<noteq> [] \<and> (\<forall>c \<in> set row. length c = nat (lmax cfg)))"
    by (rule map_err_ex) (use row in auto)
  then show ?thesis unfolding norm_def fs_def w_def by simp
qed

lemma forward_unfold0:
  assumes "0 \<le> windows cfg" "0 < strides cfg"
  shows "forward cfg audio =
    (case map_err (map_err (\<lambda>fr. case difference (windows cfg) (lmax cfg) fr of
                                          Inl e \<Rightarrow> Inl e | Inr d \<Rightarrow> cumdiff (lmax cfg) d))
                 (map (\<lambda>x. map (\<lambda>i. take (nat (windows cfg)) (drop (i * nat (strides cfg))
                                         (x @ replicate (nat (windows cfg)) 0)))
                               [0..<length x div nat (strides cfg) + 1]) audio) of
       Inl e \<Rightarrow> Inl e
     | Inr cds \<Rightarrow>
         (case midi_range cfg of
            Inl e \<Rightarrow> Inl e
          | Inr (mmin, mmax) \<Rightarrow>
              map_err (map_err (\<lambda>c. map_err (interpolate c) (map (m2l (sr cfg)) [mmin..mmax]))) cds))"
proof -
  have "map_err (\<lambda>x. case pad_zeros x (windows cfg) of
                        Inl e \<Rightarrow> Inl e | Inr p \<Rightarrow> unfold p (windows cfg) (strides cfg)) audio
      = Inr (map (\<lambda>x. map (\<lambda>i. take (nat (windows cfg)) (drop (i * nat (strides cfg))
                                         (x @ replicate (nat (windows cfg)) 0)))
                               [0..<length x div nat (strides cfg) + 1]) audio)"
    by (rule map_err_map) (use assms in \<open>simp add: framing_ok\<close>)
  then show ?thesis
    unfolding forward_def Let_def by (simp only: sum.case)
qed

lemma forward_unfold:
  assumes "0 < windows cfg" "0 < strides cfg"
  shows "forward cfg audio =
    (case map_err (map_err (\<lambda>fr. case difference (windows cfg) (lmax cfg) fr of
                                          Inl e \<Rightarrow> Inl e | Inr d \<Rightarrow> cumdiff (lmax cfg) d))
                 (map (\<lambda>x. map (\<lambda>i. take (nat (windows cfg)) (drop (i * nat (strides cfg))
                                         (x @ replicate (nat (windows cfg)) 0)))
                               [0..<length x div nat (strides cfg) + 1]) audio) of
       Inl e \<Rightarrow> Inl e
     | Inr cds \<Rightarrow>
         (case midi_range cfg of
            Inl e \<Rightarrow> Inl e
          | Inr (mmin, mmax) \<Rightarrow>
              map_err (map_err (\<lambda>c. map_err (interpolate c) (map (m2l (sr cfg)) [mmin..mmax]))) cds))"
  using assms by (intro forward_unfold0) simp_all

lemma forward_succeeds:
  assumes "even (windows cfg)" "0 < windows cfg" "0 < strides cfg"
    "1 \<le> lmax cfg" "lmax cfg \<le> windows cfg"
    "midi_range cfg = Inr (mmin, mmax)"
    "\<And>m. mmin \<le> m \<Longrightarrow> m \<le> mmax \<Longrightarrow> 0 \<le> \<lfloor>m2l (sr cfg) m\<rfloor> \<and> \<lceil>m2l (sr cfg) m\<rceil> < lmax cfg"
  shows "\<exists>out. forward cfg audio = Inr out"
proof -
  from forward_stages[OF assms(1-5), of audio] obtain cds where
    cds: "map_err (map_err (\<lambda>fr. case difference (windows cfg) (lmax cfg) fr of
                                          Inl e \<Rightarrow> Inl e | Inr d \<Rightarrow> cumdiff (lmax cfg) d))
                 (map (\<lambda>x. map (\<lambda>i. take (nat (windows cfg)) (drop (i * nat (strides cfg))
                                         (x @ replicate (nat (windows cfg)) 0)))
                               [0..<length x div nat (strides cfg) + 1]) audio) = Inr cds"
    and len: "\<forall>row \<in> set cds. row \<noteq> [] \<and> (\<forall>c \<in> set row. length c = nat (lmax cfg))"
    by blast
  define lags where "lags = map (m2l (sr cfg)) [mmin..mmax]"
  have pt: "\<exists>v. map_err (interpolate c) lags = Inr v \<and> True" if "length c = nat (lmax cfg)" for c
  proof -
    have "\<exists>v. interpolate c L = Inr v \<and> True" if "L \<in> set lags" for L
    proof -
      from that obtain m where "mmin \<le> m" "m \<le> mmax" "L = m2l (sr cfg) m"
        by (auto simp: lags_def)
      with assms(7)[of m] \<open>length c = nat (lmax cfg)\<close> assms(4)
      have "0 \<le> \<lfloor>L\<rfloor>" "\<lceil>L\<rceil> < int (length c)" by simp_all
      from interpolate_in_range[OF this] show ?thesis by simp
    qed
    from map_err_ex[of lags "interpolate c" "\<lambda>_. True", OF this] show ?thesis by auto
  qed
  have rowok: "\<exists>r. map_err (\<lambda>c. map_err (interpolate c) lags) row = Inr r \<and> True" if "row \<in> set cds" for row
  proof -
    from that len have "\<forall>c \<in> set row. length c = nat (lmax cfg)" by auto
    with pt have "\<And>c. c \<in> set row \<Longrightarrow> \<exists>v. map_err (interpolate c) lags = Inr v \<and> True" by auto
    from map_err_ex[of row "\<lambda>c. map_err (interpolate c) lags" "\<lambda>_. True", OF this] show ?thesis by auto
  qed
  from map_err_ex[of cds "map_err (\<lambda>c. map_err (interpolate c) lags)" "\<lambda>_. True", OF rowok]
  obtain out where "map_err (map_err (\<lambda>c. map_err (interpolate c) lags)) cds = Inr out" by auto
  then show ?thesis
    unfolding forward_unfold[OF assms(2,3)] cds assms(6) lags_def by simp
qed

lemma forward_index_error:
  assumes "even (windows cfg)" "0 < windows cfg" "0 < strides cfg"
    "1 \<le> lmax cfg" "lmax cfg \<le> windows cfg"
    "midi_range cfg = Inr (mmin, mmax)" "mmin \<le> mmax"
    "lmax cfg \<le> \<lceil>m2l (sr cfg) mmin\<rceil>" "audio \<noteq> []"
  shows "forward cfg audio = Inl IndexError"
proof -
  from forward_stages[OF assms(1-5), of audio] obtain cds where
    cds: "map_err (map_err (\<lambda>fr. case difference (windows cfg) (lmax cfg) fr of
                                          Inl e \<Rightarrow> Inl e | Inr d \<Rightarrow> cumdiff (lmax cfg) d))
                 (map (\<lambda>x. map (\<lambda>i. take (nat (windows cfg)) (drop (i * nat (strides cfg))
                                         (x @ replicate (nat (windows cfg)) 0)))
                               [0..<length x div nat (strides cfg) + 1]) audio) = Inr cds"
    and l: "length cds = length audio"
    and len: "\<forall>row \<in> set cds. row \<noteq> [] \<and> (\<forall>c \<in> set row. length c = nat (lmax cfg))"
    by blast
  from l assms(9) obtain row rest where c1: "cds = row # rest" by (cases cds) auto
  with len obtain c crest where c2: "row = c # crest" by (cases row) auto
  from len c1 c2 have lc: "length c = nat (lmax cfg)" by simp
  have up: "[mmin..mmax] = mmin # [mmin + 1..mmax]"
    using assms(7) by (simp add: upto_rec1)
  have "int (length c) \<le> \<lceil>m2l (sr cfg) mmin\<rceil>"
    using lc assms(4,8) by simp
  then have "interpolate c (m2l (sr cfg) mmin) = Inl IndexError"
    by (rule interpolate_out_of_range)
  then show ?thesis
    unfolding forward_unfold[OF assms(2,3)] cds assms(6) by (simp add: c1 c2 up)
qed

lemma interpolate_of_int_Inr:
  assumes "interpolate c (real_of_int k) = Inr v"
  shows "v = None"
proof (cases "gather c k")
  case (Inl e)
  with assms show ?thesis by (simp add: interpolate_def)
next
  case (Inr a)
  with assms have "v = (case a of None \<Rightarrow> None | Some h \<Rightarrow>
      (case fdiv ((h - h) * (real_of_int k - real_of_int k)) (real_of_int (k - k)) of
         None \<Rightarrow> None | Some r \<Rightarrow> Some (r + h)))"
    by (cases a) (auto simp: interpolate_def)
  then show ?thesis by (cases a) (simp_all add: fdiv_def)
qed

lemma forward_integer_lag_None:
  assumes "forward cfg audio = Inr out" "midi_range cfg = Inr (mmin, mmax)"
    "mmin \<le> m" "m \<le> mmax" "m2l (sr cfg) m = real_of_int L0"
    "i < length out" "j < length (out ! i)"
  shows "out ! i ! j ! nat (m - mmin) = None"
proof -
  from forward_Inr[OF assms(1)] obtain cds mmin' mmax' where
    "midi_range cfg = Inr (mmin', mmax')"
    "map_err (map_err (\<lambda>c. map_err (interpolate c) (map (m2l (sr cfg)) [mmin'..mmax']))) cds = Inr out"
    by blast
  with assms(2) have
    o: "map_err (map_err (\<lambda>c. map_err (interpolate c) (map (m2l (sr cfg)) [mmin..mmax]))) cds = Inr out"
    by simp
  define lags where "lags = map (m2l (sr cfg)) [mmin..mmax]"
  have i: "i < length cds" using assms(6) map_err_length[OF o] by simp
  have oi: "map_err (\<lambda>c. map_err (interpolate c) lags) (cds ! i) = Inr (out ! i)"
    using map_err_nth[OF o i] by (simp add: lags_def)
  have j: "j < length (cds ! i)" using assms(7) map_err_length[OF oi] by simp
  have oj: "map_err (interpolate (cds ! i ! j)) lags = Inr (out ! i ! j)"
    using map_err_nth[OF oi j] .
  have k: "nat (m - mmin) < length lags"
    using assms(3,4) by (simp add: lags_def)
  have "lags ! nat (m - mmin) = m2l (sr cfg) m"
    using assms(3,4) by (simp add: lags_def nth_upto)
  with map_err_nth[OF oj k] assms(5)
  have "interpolate (cds ! i ! j) (real_of_int L0) = Inr (out ! i ! j ! nat (m - mmin))" by simp
  then show ?thesis by (rule interpolate_of_int_Inr)
qed

section \<open>Silence and three concrete configurations\<close>

lemma energy_silence: "k \<le> n \<Longrightarrow> energy (replicate n 0) k = 0"
  by (simp add: energy_def)

lemma circular_autocorr_silence: "circular_autocorr (replicate n 0) t = 0"
  by (simp add: circular_autocorr_def)

lemma difference_silence:
  assumes "even n" "0 < n" "0 \<le> tau_max" "tau_max \<le> int n"
  shows "difference (int n) tau_max (replicate n 0) = Inr (replicate (nat tau_max) 0)"
proof -
  have "difference (int n) tau_max (replicate n 0) =
    Inr (map (\<lambda>tau. energy (replicate n 0) (length (replicate n (0::real)) - 1 - tau)
                     - 2 * circular_autocorr (replicate n 0) tau
                     + energy (replicate n 0) (length (replicate n (0::real)))
                     - energy (replicate n 0) tau) [0..<nat tau_max])"
    by (rule difference_formula) (use assms in simp_all)
  also have "map (\<lambda>tau. energy (replicate n 0) (length (replicate n (0::real)) - 1 - tau)
                     - 2 * circular_autocorr (replicate n 0) tau
                     + energy (replicate n 0) (length (replicate n (0::real)))
                     - energy (replicate n 0) tau) [0..<nat tau_max]
      = map (\<lambda>tau. 0) [0..<nat tau_max]"
    using assms by (intro map_cong refl) (simp add: energy_silence circular_autocorr_silence)
  also have "\<dots> = replicate (nat tau_max) 0"
    by (simp add: map_replicate_const)
  finally show ?thesis .
qed

lemma cumdiff_silence:
  assumes "1 \<le> tau_max"
  shows "cumdiff tau_max (replicate (nat tau_max) 0) = Inr (Some 1 # replicate (nat tau_max - 1) (Some 0))"
proof -
  from cumdiff_result[of "replicate (nat tau_max) 0" tau_max] assms obtain c where
    c: "cumdiff tau_max (replicate (nat tau_max) 0) = Inr c" "length c = nat tau_max" "c ! 0 = Some 1"
    and ct: "\<forall>tau. 1 \<le> tau \<and> tau < nat tau_max \<longrightarrow>
          c ! tau = (if (\<Sum>k = 1..tau. replicate (nat tau_max) (0::real) ! k) + 1 / 10 ^ 7 = 0 then None
                     else Some (real tau * replicate (nat tau_max) 0 ! tau
                        / ((\<Sum>k = 1..tau. replicate (nat tau_max) (0::real) ! k) + 1 / 10 ^ 7)))"
    by auto
  have "c = Some 1 # replicate (nat tau_max - 1) (Some 0)"
  proof (rule nth_equalityI)
    show "length c = length (Some (1::real) # replicate (nat tau_max - 1) (Some 0))"
      using c(2) assms by simp
  next
    fix i assume "i < length c"
    then have i: "i < nat tau_max" using c(2) by simp
    show "c ! i = (Some 1 # replicate (nat tau_max - 1) (Some 0)) ! i"
    proof (cases i)
      case 0
      then show ?thesis using c(3) by simp
    next
      case (Suc j)
      have "(\<Sum>k = 1..i. replicate (nat tau_max) (0::real) ! k) = 0"
        using i by (intro sum.neutral) simp
      with ct i Suc have "c ! i = Some 0" by simp
      with Suc i show ?thesis by simp
    qed
  qed
  with c(1) show ?thesis by simp
qed

lemma midi_grid_A: "mmin \<le> m \<Longrightarrow> m \<le> mmax \<Longrightarrow> mmin = 69 \<Longrightarrow> mmax = 69 \<Longrightarrow>
    0 \<le> \<lfloor>m2l 22000 m\<rfloor> \<and> \<lceil>m2l 22000 m\<rceil> < 51"
proof -
  assume "mmin \<le> m" "m \<le> mmax" "mmin = 69" "mmax = 69"
  then have "m = 69" by simp
  then show ?thesis by (simp add: m2l_69)
qed

lemma forward_A_succeeds:
  assumes "0 < s"
  shows "\<exists>out. forward \<lparr>strides = s, windows = 52, lmin = 50, lmax = 51, sr = 22000\<rparr> audio = Inr out"
proof (rule forward_succeeds)
  show "midi_range \<lparr>strides = s, windows = 52, lmin = 50, lmax = 51, sr = 22000\<rparr> = Inr (69, 69)"
    by (rule midi_range_A)
next
  fix m :: int assume "69 \<le> m" "m \<le> 69"
  then show "0 \<le> \<lfloor>m2l (sr \<lparr>strides = s, windows = 52, lmin = 50, lmax = 51, sr = 22000\<rparr>) m\<rfloor>
      \<and> \<lceil>m2l (sr \<lparr>strides = s, windows = 52, lmin = 50, lmax = 51, sr = 22000\<rparr>) m\<rceil>
        < lmax \<lparr>strides = s, windows = 52, lmin = 50, lmax = 51, sr = 22000\<rparr>"
    using midi_grid_A[of 69 m 69] by simp
qed (use assms in simp_all)

lemma singleton_None:
  assumes "length fr = 1" "fr ! 0 = None"
  shows "fr = [None]"
  using assms by (cases fr) auto

lemma forward_A_52:
  "forward \<lparr>strides = 52, windows = 52, lmin = 50, lmax = 51, sr = 22000\<rparr> [replicate 52 0]
     = Inr [[[None], [None]]]"
proof -
  define cfg where "cfg = \<lparr>strides = 52, windows = 52, lmin = 50, lmax = 51, sr = 22000\<rparr>"
  obtain out where out: "forward cfg [replicate 52 0] = Inr out"
    using forward_A_succeeds[of 52 "[replicate 52 0]"] by (auto simp: cfg_def)
  have mr: "midi_range cfg = Inr (69, 69)" unfolding cfg_def by (rule midi_range_A)
  have gs: "grid_size cfg = 1" by (simp add: grid_size_def mr)
  from forward_shape[OF out] have l: "length out = 1"
    and r: "length (out ! 0) = 2" and f: "\<forall>fr \<in> set (out ! 0). length fr = 1"
    by (simp_all add: cfg_def gs[unfolded cfg_def])
  have n: "out ! 0 ! j ! 0 = None" if "j < 2" for j
    using forward_integer_lag_None[OF out mr, of 69 50 0 j] l r that
    by (simp add: cfg_def m2l_69)
  from r obtain a b where ab: "out ! 0 = [a, b]"
    by (auto simp: length_Suc_conv numeral_2_eq_2)
  from f ab have "length a = 1" "length b = 1" by simp_all
  moreover from n[of 0] n[of 1] ab have "a ! 0 = None" "b ! 0 = None" by simp_all
  ultimately have "a = [None]" "b = [None]" by (simp_all add: singleton_None)
  with ab have "out ! 0 = [[None], [None]]" by simp
  moreover from l obtain r0 where "out = [r0]" by (auto simp: length_Suc_conv)
  ultimately have "out = [[[None], [None]]]" by simp
  with out show ?thesis by (simp add: cfg_def)
qed

section \<open>Interpolation at integer lags, index bounds and the shape of the output\<close>

text \<open>
  Claim C2.  The code has no case for a grid lag that is an integer: there \<open>lceil = lfloor\<close>,
  the quotient is \<open>0 / 0\<close>, and whenever \<open>forward\<close> returns, the value at that grid point is
  non-finite (NaN) in every frame of every waveform, not \<open>cmnd[L0]\<close>.
\<close>

theorem forward_integer_lag:
  assumes "forward cfg audio = Inr out" "midi_range cfg = Inr (mmin, mmax)"
    "mmin \<le> m" "m \<le> mmax" "m2l (sr cfg) m = real_of_int L0"
    "i < length out" "j < length (out ! i)"
  shows "out ! i ! j ! nat (m - mmin) = None"
  using assms by (rule forward_integer_lag_None)

theorem forward_integer_lag_witness:
  "forward \<lparr>strides = 52, windows = 52, lmin = 50, lmax = 51, sr = 22000\<rparr> [replicate 52 0]
     = Inr [[[None], [None]]]
   \<and> midi_range \<lparr>strides = 52, windows = 52, lmin = 50, lmax = 51, sr = 22000\<rparr> = Inr (69, 69)
   \<and> (69 :: int) \<le> 69
   \<and> m2l (sr \<lparr>strides = 52, windows = 52, lmin = 50, lmax = 51, sr = 22000\<rparr>) 69 = real_of_int 50
   \<and> (0 :: nat) < length [[[None :: real option], [None]]]
   \<and> (1 :: nat) < length ([[[None :: real option], [None]]] ! 0)
   \<and> [[[None :: real option], [None]]] ! 0 ! 1 ! nat (69 - 69) = None"
proof -
  have a: "m2l (sr \<lparr>strides = 52, windows = 52, lmin = 50, lmax = 51, sr = 22000\<rparr>) 69 = real_of_int 50"
    by (simp add: m2l_69)
  have b: "(0 :: nat) < length [[[None :: real option], [None]]]" by simp
  have c: "(1 :: nat) < length ([[[None :: real option], [None]]] ! 0)" by simp
  have "[[[None :: real option], [None]]] ! 0 ! 1 ! nat (69 - 69) = None"
    by (rule forward_integer_lag[OF forward_A_52 midi_range_A _ _ a b c]) simp_all
  with forward_A_52 midi_range_A a b c show ?thesis by blast
qed

text \<open>
  Claim C6.  For the valid configuration of window 52, lags 50 to 51 and 22000 Hz, the
  all-zero waveform of length 52 has an all-zero difference function and a normalized
  difference that is 1 at index 0 and 0 elsewhere, but the output is NaN at the single grid
  point (MIDI 69, lag 50 exactly), in both frames: the epsilon of the normalization does not
  guard the division of the interpolation.
\<close>

theorem silence_output_nan:
  "difference 52 51 (replicate 52 0) = Inr (replicate 51 0)
   \<and> cumdiff 51 (replicate 51 0) = Inr (Some 1 # replicate 50 (Some 0))
   \<and> forward \<lparr>strides = 52, windows = 52, lmin = 50, lmax = 51, sr = 22000\<rparr> [replicate 52 0]
        = Inr [[[None], [None]]]"
proof -
  have "difference (int 52) 51 (replicate 52 0) = Inr (replicate (nat 51) 0)"
    by (rule difference_silence) simp_all
  moreover have "cumdiff 51 (replicate (nat 51) 0) = Inr (Some 1 # replicate (nat 51 - 1) (Some 0))"
    by (rule cumdiff_silence) simp
  ultimately show ?thesis using forward_A_52 by simp
qed

text \<open>
  Claim C3.  For the valid configuration of window 50, lags 25 to 50 and 22000 Hz the first
  grid point (MIDI 69) has the lag 50 = \<open>lmax\<close>, so \<open>lceil = 50\<close> indexes a vector of length 50
  and \<open>forward\<close> raises IndexError on every non-empty batch.
\<close>

theorem index_out_of_range:
  "forward \<lparr>strides = 1, windows = 50, lmin = 25, lmax = 50, sr = 22000\<rparr> (x # audio) = Inl IndexError"
proof (rule forward_index_error)
  show "midi_range \<lparr>strides = 1, windows = 50, lmin = 25, lmax = 50, sr = 22000\<rparr> = Inr (69, 81)"
    by (rule midi_range_B)
qed (simp_all add: m2l_69)

text \<open>
  Claim C5, as stated, fails: a waveform of length 2 with stride 2 gives 2 frames, not
  \<open>ceil(2 / 2) = 1\<close>.
\<close>

theorem frame_count_counterexample:
  "map_sum id (map length)
     (forward \<lparr>strides = 2, windows = 52, lmin = 50, lmax = 51, sr = 22000\<rparr> [[0, 0]]) = Inr [2]
   \<and> map_sum id (map length)
     (forward \<lparr>strides = 2, windows = 52, lmin = 50, lmax = 51, sr = 22000\<rparr> [[0, 0]])
       \<noteq> Inr [nat \<lceil>real (length [0, 0 :: real]) / real_of_int 2\<rceil>]"
proof -
  obtain out where out: "forward \<lparr>strides = 2, windows = 52, lmin = 50, lmax = 51, sr = 22000\<rparr> [[0, 0]] = Inr out"
    using forward_A_succeeds[of 2 "[[0, 0]]"] by auto
  from forward_shape[OF out] have "length out = 1" "length (out ! 0) = 2" by simp_all
  then have "map length out = [2]" by (cases out) auto
  with out show ?thesis by simp
qed

text \<open>
  Claim C5, amended.  Whenever \<open>forward\<close> returns on a batch of \<open>B\<close> waveforms of length \<open>T\<close>,
  the output has \<open>B\<close> rows of \<open>T div strides + 1\<close> frames of \<open>grid_size\<close> values each, and
  \<open>grid_size\<close> (which is \<open>mmax - mmin + 1\<close>) is the same for any two configurations that agree
  on \<open>lmin\<close>, \<open>lmax\<close> and \<open>sr\<close>.
\<close>

theorem forward_shape_law:
  assumes "forward cfg audio = Inr out" "\<forall>x \<in> set audio. length x = T"
  shows "length out = length audio
    \<and> (\<forall>row \<in> set out. length row = T div nat (strides cfg) + 1
          \<and> (\<forall>fr \<in> set row. length fr = grid_size cfg))
    \<and> (sr cfg' = sr cfg \<and> lmin cfg' = lmin cfg \<and> lmax cfg' = lmax cfg
          \<longrightarrow> grid_size cfg' = grid_size cfg)"
proof -
  from forward_shape[OF assms(1)] have l: "length out = length audio"
    and r: "\<forall>i<length audio. length (out ! i) = length (audio ! i) div nat (strides cfg) + 1
          \<and> (\<forall>fr \<in> set (out ! i). length fr = grid_size cfg)" by simp_all
  have "length row = T div nat (strides cfg) + 1 \<and> (\<forall>fr \<in> set row. length fr = grid_size cfg)"
    if "row \<in> set out" for row
  proof -
    from that obtain i where i: "i < length out" "row = out ! i" by (auto simp: in_set_conv_nth)
    with l have "audio ! i \<in> set audio" by simp
    with assms(2) have "length (audio ! i) = T" by blast
    with r i l show ?thesis by simp
  qed
  moreover have "grid_size cfg' = grid_size cfg"
    if "sr cfg' = sr cfg \<and> lmin cfg' = lmin cfg \<and> lmax cfg' = lmax cfg"
  proof -
    from that have e: "sr cfg' = sr cfg" "lmin cfg' = lmin cfg" "lmax cfg' = lmax cfg"
      by simp_all
    show ?thesis unfolding grid_size_def midi_range_def e ..
  qed
  ultimately show ?thesis using l by blast
qed

theorem forward_shape_law_witness:
  "\<exists>out. forward \<lparr>strides = 2, windows = 52, lmin = 50, lmax = 51, sr = 22000\<rparr> [[0, 0], [1, 0]] = Inr out
    \<and> (\<forall>x \<in> set [[0, 0], [1, 0 :: real]]. length x = 2)
    \<and> length out = 2
    \<and> (\<forall>row \<in> set out. length row = 2 \<and> (\<forall>fr \<in> set row. length fr = 1))"
proof -
  obtain out where out: "forward \<lparr>strides = 2, windows = 52, lmin = 50, lmax = 51, sr = 22000\<rparr> [[0, 0], [1, 0]] = Inr out"
    using forward_A_succeeds[of 2 "[[0, 0], [1, 0]]"] by auto
  have t: "\<forall>x \<in> set [[0, 0], [1, 0 :: real]]. length x = 2" by simp
  have gs: "grid_size \<lparr>strides = 2, windows = 52, lmin = 50, lmax = 51, sr = 22000\<rparr> = 1"
    by (simp add: grid_size_def midi_range_A)
  from forward_shape_law[OF out t] have "length out = 2
    \<and> (\<forall>row \<in> set out. length row = 2 \<and> (\<forall>fr \<in> set row. length fr = 1))"
    by (simp add: gs)
  with out t show ?thesis by blast
qed

section \<open>Configurations that violate the invariants\<close>










end
